theory Spec2Isabelle
  imports Complex_Main "HOL-Library.Multiset"
begin

section \<open>Exceptions of the Python runtime\<close>

text \<open>
  Every exception the modelled code can raise is a value; a function that can raise
  returns \<open>error + 'a\<close> with \<open>Inl\<close> for the exception.
\<close>

datatype error =
    ValueError | IndexError | TypeError | AttributeError
  | ZeroDivisionError | RuntimeError | NameError

section \<open>The random module\<close>

text \<open>
  Python's \<^verbatim>\<open>random\<close> module is outside the repository. Its generator is a state of type
  \<open>'r\<close> that every call reads and advances; the calls the notebooks make are parameters:
  \<^item> \<open>seed\<close>: \<^verbatim>\<open>random.seed(n)\<close>, the state after seeding;
  \<^item> \<open>randbelow r n\<close>: the index drawn by \<^verbatim>\<open>random.choice\<close> on a sequence of length \<open>n\<close>;
  \<^item> \<open>randint r a b\<close>: \<^verbatim>\<open>random.randint(a, b)\<close>;
  \<^item> \<open>sample_range r n k\<close>: \<^verbatim>\<open>random.sample(range(n), k)\<close>;
  \<^item> \<open>shuffle_perm r n\<close>: the rearrangement \<^verbatim>\<open>random.shuffle\<close> applies to a list of length
    \<open>n\<close>, as the list of the old positions in their new order.
\<close>

record 'r rng =
  seed :: "int \<Rightarrow> 'r"
  randbelow :: "'r \<Rightarrow> nat \<Rightarrow> nat \<times> 'r"
  randint :: "'r \<Rightarrow> nat \<Rightarrow> nat \<Rightarrow> nat \<times> 'r"
  sample_range :: "'r \<Rightarrow> nat \<Rightarrow> nat \<Rightarrow> nat list \<times> 'r"
  shuffle_perm :: "'r \<Rightarrow> nat \<Rightarrow> nat list \<times> 'r"

text \<open>
  What the library guarantees: \<open>choice\<close> draws an index of the sequence, \<open>randint\<close> a value
  between its bounds, \<open>sample\<close> draws \<open>k\<close> different elements of the range, and \<open>shuffle\<close>
  rearranges (every old position occurs once).
\<close>

definition rng_ok :: "'r rng \<Rightarrow> bool" where
  "rng_ok g \<longleftrightarrow>
     (\<forall>r n. 0 < n \<longrightarrow> fst (randbelow g r n) < n) \<and>
     (\<forall>r a b. a \<le> b \<longrightarrow> a \<le> fst (randint g r a b) \<and> fst (randint g r a b) \<le> b) \<and>
     (\<forall>r n k. k \<le> n \<longrightarrow> length (fst (sample_range g r n k)) = k \<and> distinct (fst (sample_range g r n k))
                  \<and> set (fst (sample_range g r n k)) \<subseteq> {..<n}) \<and>
     (\<forall>r n. mset (fst (shuffle_perm g r n)) = mset [0..<n])"

text \<open>\<^verbatim>\<open>random.choice(xs)\<close>; every call in the notebooks is on a list known to be non-empty.\<close>

definition choice :: "'r rng \<Rightarrow> 'r \<Rightarrow> 'a list \<Rightarrow> 'a \<times> 'r" where
  "choice g r xs = (case randbelow g r (length xs) of (i, r') \<Rightarrow> (xs ! i, r'))"

text \<open>\<^verbatim>\<open>random.shuffle(xs)\<close>: the list after the in-place shuffle, and the new generator state.\<close>

definition shuffle :: "'r rng \<Rightarrow> 'r \<Rightarrow> 'a list \<Rightarrow> 'a list \<times> 'r" where
  "shuffle g r xs = (case shuffle_perm g r (length xs) of (p, r') \<Rightarrow> (map (\<lambda>i. xs ! i) p, r'))"

text \<open>
  A generator for concrete runs: the state counts the calls; \<open>choice\<close> takes the first
  element, \<open>randint\<close> the lower bound, \<open>sample\<close> the first \<open>k\<close> indices, \<open>shuffle\<close> reverses.
\<close>

definition det_rng :: "nat rng" where
  "det_rng = \<lparr> seed = (\<lambda>n. 0),
               randbelow = (\<lambda>r n. (0, Suc r)),
               randint = (\<lambda>r a b. (a, Suc r)),
               sample_range = (\<lambda>r n k. (take k [0..<n], Suc r)),
               shuffle_perm = (\<lambda>r n. (rev [0..<n], Suc r)) \<rparr>"


section \<open>Dialogues and the corpus loaders\<close>

text \<open>
  A turn is a pair of a speaker and an utterance; a dialogue is a list of turns. The type
  of utterances is a parameter: the loaders produce whatever JSON value the record holds.
\<close>

type_synonym 'u turn = "string \<times> 'u"
type_synonym 'u dialogue = "'u turn list"

datatype json =
    JNull | JBool bool | JNumber real | JString string
  | JArray "json list" | JObject "(string \<times> json) list"

text \<open>
  \<^verbatim>\<open>json.loads\<close> and \<^verbatim>\<open>str.strip\<close> are library functions, taken as parameters; \<open>loads\<close>
  returns \<open>None\<close> where the library raises \<^verbatim>\<open>JSONDecodeError\<close>. An object is the list of
  its items in the order of the dictionary.
\<close>

record pylib =
  loads :: "string \<Rightarrow> json option"
  strip :: "string \<Rightarrow> string"

text \<open>\<^verbatim>\<open>obj.get("dialogue", [])\<close>: only a dictionary has the method.\<close>

definition get_dialogue :: "json \<Rightarrow> error + json" where
  "get_dialogue obj =
     (case obj of
        JObject kvs \<Rightarrow> Inr (case map_of kvs ''dialogue'' of None \<Rightarrow> JArray [] | Some v \<Rightarrow> v)
      | _ \<Rightarrow> Inl AttributeError)"

text \<open>
  \<^verbatim>\<open>for turn in raw_dialogue\<close>: a list yields its elements, a string its characters, a
  dictionary its keys; a number, a boolean or null is not iterable.
\<close>

definition iterate :: "json \<Rightarrow> error + json list" where
  "iterate raw =
     (case raw of
        JArray xs \<Rightarrow> Inr xs
      | JString cs \<Rightarrow> Inr (map (\<lambda>c. JString [c]) cs)
      | JObject kvs \<Rightarrow> Inr (map (\<lambda>(k, v). JString k) kvs)
      | _ \<Rightarrow> Inl TypeError)"

definition turn_items :: "json \<Rightarrow> json dialogue" where
  "turn_items turn = (case turn of JObject kvs \<Rightarrow> kvs | _ \<Rightarrow> [])"

text \<open>The body of the \<^verbatim>\<open>try\<close> block after \<^verbatim>\<open>json.loads\<close>: the list of (speaker, utterance).\<close>

definition extract_dialogue :: "json \<Rightarrow> error + json dialogue" where
  "extract_dialogue obj =
     (case get_dialogue obj of
        Inl e \<Rightarrow> Inl e
      | Inr raw_dialogue \<Rightarrow>
          (case iterate raw_dialogue of
             Inl e \<Rightarrow> Inl e
           | Inr turns \<Rightarrow> Inr (concat (map turn_items turns))))"

text \<open>\<^verbatim>\<open>xs[:n]\<close>: a negative \<open>n\<close> counts from the end.\<close>

definition py_prefix :: "'a list \<Rightarrow> int \<Rightarrow> 'a list" where
  "py_prefix xs n = (if 0 \<le> n then take (nat n) xs else take (length xs - nat (- n)) xs)"

definition warning :: "string \<Rightarrow> string" where
  "warning file = ''Warning: could not parse line in '' @ file"

text \<open>
  The line loop of \<^verbatim>\<open>DialogueCoherenceDataset.__init__\<close> over one file. The state is the
  list \<^verbatim>\<open>all_dialogues\<close> and the lines printed so far. Only \<^verbatim>\<open>JSONDecodeError\<close> is caught.
\<close>

fun load_lines_ht ::
  "pylib \<Rightarrow> int \<Rightarrow> string \<Rightarrow> string list \<Rightarrow> json dialogue list \<times> string list
     \<Rightarrow> error + (json dialogue list \<times> string list)" where
  "load_lines_ht lib max_utterances file [] st = Inr st"
| "load_lines_ht lib max_utterances file (line # rest) (all_dialogues, printed) =
     (let line' = strip lib line in
      if line' = [] then load_lines_ht lib max_utterances file rest (all_dialogues, printed)
      else
        (case loads lib line' of
           None \<Rightarrow> load_lines_ht lib max_utterances file rest (all_dialogues, printed @ [warning file])
         | Some obj \<Rightarrow>
             (case extract_dialogue obj of
                Inl e \<Rightarrow> Inl e
              | Inr dialogue \<Rightarrow>
                  if 2 \<le> length dialogue
                  then load_lines_ht lib max_utterances file rest
                         (all_dialogues @ [py_prefix dialogue max_utterances], printed)
                  else load_lines_ht lib max_utterances file rest (all_dialogues, printed))))"

text \<open>The file loop: the files are those that \<^verbatim>\<open>glob\<close> returns, each with its lines.\<close>

fun load_files_ht ::
  "pylib \<Rightarrow> int \<Rightarrow> (string \<times> string list) list \<Rightarrow> json dialogue list \<times> string list
     \<Rightarrow> error + (json dialogue list \<times> string list)" where
  "load_files_ht lib max_utterances [] st = Inr st"
| "load_files_ht lib max_utterances ((file, lines) # files) st =
     (case load_lines_ht lib max_utterances file lines st of
        Inl e \<Rightarrow> Inl e
      | Inr st' \<Rightarrow> load_files_ht lib max_utterances files st')"

text \<open>The line loop and the file loop of \<^verbatim>\<open>load_dialogues_with_speakers\<close> (LCD notebook).\<close>

fun load_lines_lcd ::
  "pylib \<Rightarrow> string \<Rightarrow> string list \<Rightarrow> json dialogue list \<times> string list
     \<Rightarrow> error + (json dialogue list \<times> string list)" where
  "load_lines_lcd lib filename [] st = Inr st"
| "load_lines_lcd lib filename (line # rest) (all_dialogues, printed) =
     (case loads lib line of
        None \<Rightarrow> load_lines_lcd lib filename rest (all_dialogues, printed @ [warning filename])
      | Some data \<Rightarrow>
          (case extract_dialogue data of
             Inl e \<Rightarrow> Inl e
           | Inr dialogue \<Rightarrow>
               if 2 \<le> length dialogue
               then load_lines_lcd lib filename rest (all_dialogues @ [dialogue], printed)
               else load_lines_lcd lib filename rest (all_dialogues, printed)))"

definition endswith :: "string \<Rightarrow> string \<Rightarrow> bool" where
  "endswith s suffix \<longleftrightarrow>
     length suffix \<le> length s \<and> drop (length s - length suffix) s = suffix"

fun load_folder_lcd ::
  "pylib \<Rightarrow> (string \<times> string list) list \<Rightarrow> json dialogue list \<times> string list
     \<Rightarrow> error + (json dialogue list \<times> string list)" where
  "load_folder_lcd lib [] st = Inr st"
| "load_folder_lcd lib ((filename, lines) # files) st =
     (if endswith filename ''.jsonl''
      then (case load_lines_lcd lib filename lines st of
              Inl e \<Rightarrow> Inl e
            | Inr st' \<Rightarrow> load_folder_lcd lib files st')
      else load_folder_lcd lib files st)"

definition load_dialogues_with_speakers ::
  "pylib \<Rightarrow> (string \<times> string list) list \<Rightarrow> error + (json dialogue list \<times> string list)" where
  "load_dialogues_with_speakers lib folder = load_folder_lcd lib folder ([], [])"


section \<open>Negative synthesis in the LCD notebook (\<^verbatim>\<open>permute_dialogue\<close>)\<close>

text \<open>The first loop: positions and utterances of the target speaker, and the other turns.\<close>

definition speaker_indices :: "string \<Rightarrow> 'u dialogue \<Rightarrow> nat list" where
  "speaker_indices speaker_to_permute dialogue =
     map fst (filter (\<lambda>(idx, turn). fst turn = speaker_to_permute) (enumerate 0 dialogue))"

definition speaker_utterances :: "string \<Rightarrow> 'u dialogue \<Rightarrow> 'u list" where
  "speaker_utterances speaker_to_permute dialogue =
     map (\<lambda>(idx, turn). snd turn)
       (filter (\<lambda>(idx, turn). fst turn = speaker_to_permute) (enumerate 0 dialogue))"

definition other_turns :: "string \<Rightarrow> 'u dialogue \<Rightarrow> (nat \<times> 'u turn) list" where
  "other_turns speaker_to_permute dialogue =
     filter (\<lambda>(idx, turn). fst turn \<noteq> speaker_to_permute) (enumerate 0 dialogue)"

text \<open>
  \<^verbatim>\<open>while True: random.shuffle(shuffled); if shuffled != to_shuffle: break\<close>. The loop has
  no bound, so it is a partial function: \<open>None\<close> is the run that never leaves the loop.
\<close>

partial_function (option) shuffle_until_different ::
  "'r rng \<Rightarrow> 'u list \<Rightarrow> 'u list \<Rightarrow> 'r \<Rightarrow> ('u list \<times> 'r) option" where
  "shuffle_until_different g to_shuffle shuffled r =
     (case shuffle g r shuffled of
        (shuffled', r') \<Rightarrow>
          if shuffled' \<noteq> to_shuffle then Some (shuffled', r')
          else shuffle_until_different g to_shuffle shuffled' r')"

declare shuffle_until_different.simps [code]

text \<open>
  \<^verbatim>\<open>for orig, new in zip(permute_sub_idx, shuffled): new_speaker_utterances[orig] = new\<close>.
  The positions come from \<^verbatim>\<open>random.sample(range(len(speaker_indices)), k)\<close>, so they
  are positions of the list.
\<close>

definition assign_shuffled :: "nat list \<Rightarrow> 'u list \<Rightarrow> 'u list \<Rightarrow> 'u list" where
  "assign_shuffled permute_sub_idx shuffled speaker_utts =
     fold (\<lambda>(orig, new) new_speaker_utterances. new_speaker_utterances[orig := new])
       (zip permute_sub_idx shuffled) speaker_utts"

text \<open>
  The reconstruction loop. \<^verbatim>\<open>other_turns.pop(0)\<close> removes the head of the list that the
  first loop built, and raises \<^verbatim>\<open>IndexError\<close> on the empty list; the list is the one
  object shared by all iterations of the permutation loop, so the loop returns what is left.
\<close>

fun rebuild ::
  "string \<Rightarrow> 'u list \<Rightarrow> 'u dialogue \<Rightarrow> nat \<Rightarrow> (nat \<times> 'u turn) list \<Rightarrow> 'u dialogue
     \<Rightarrow> error + ('u dialogue \<times> (nat \<times> 'u turn) list)" where
  "rebuild speaker_to_permute new_speaker_utterances [] speaker_ptr others permuted =
     Inr (permuted, others)"
| "rebuild speaker_to_permute new_speaker_utterances ((speaker, u) # rest) speaker_ptr others permuted =
     (if speaker = speaker_to_permute then
        (if speaker_ptr < length new_speaker_utterances
         then rebuild speaker_to_permute new_speaker_utterances rest (speaker_ptr + 1) others
                (permuted @ [(speaker, new_speaker_utterances ! speaker_ptr)])
         else Inl IndexError)
      else
        (case others of
           [] \<Rightarrow> Inl IndexError
         | (orig_idx, orig_turn) # others' \<Rightarrow>
             rebuild speaker_to_permute new_speaker_utterances rest speaker_ptr others'
               (permuted @ [orig_turn])))"

text \<open>
  \<^verbatim>\<open>for _ in range(num_permutations)\<close>, with the list of results, the shared list of
  other turns and the generator as the state. The result is \<open>None\<close> when the shuffle loop
  never ends, \<open>Some (Inl e)\<close> when an exception leaves the function.
\<close>

fun permute_loop ::
  "'r rng \<Rightarrow> 'u dialogue \<Rightarrow> string \<Rightarrow> nat \<Rightarrow> 'u dialogue list \<Rightarrow> (nat \<times> 'u turn) list \<Rightarrow> 'r
     \<Rightarrow> (error + ('u dialogue list \<times> 'r)) option" where
  "permute_loop g dialogue speaker_to_permute 0 perms others r = Some (Inr (perms, r))"
| "permute_loop g dialogue speaker_to_permute (Suc n) perms others r =
     (let idxs = speaker_indices speaker_to_permute dialogue;
          utts = speaker_utterances speaker_to_permute dialogue
      in
      if length idxs < 2 then
        permute_loop g dialogue speaker_to_permute n (perms @ [dialogue]) others r
      else
        (case randint g r 2 (length idxs) of
           (k, r1) \<Rightarrow>
             (case sample_range g r1 (length idxs) k of
                (permute_sub_idx, r2) \<Rightarrow>
                  (let to_shuffle = map (\<lambda>i. utts ! i) permute_sub_idx in
                   case shuffle_until_different g to_shuffle to_shuffle r2 of
                     None \<Rightarrow> None
                   | Some (shuffled, r3) \<Rightarrow>
                       (let new_speaker_utterances = assign_shuffled permute_sub_idx shuffled utts in
                        case rebuild speaker_to_permute new_speaker_utterances dialogue 0 others [] of
                          Inl e \<Rightarrow> Some (Inl e)
                        | Inr (permuted, others') \<Rightarrow>
                            permute_loop g dialogue speaker_to_permute n (perms @ [permuted])
                              others' r3)))))"

definition permute_dialogue ::
  "'r rng \<Rightarrow> 'r \<Rightarrow> 'u dialogue \<Rightarrow> string \<Rightarrow> nat
     \<Rightarrow> (error + ('u dialogue list \<times> 'r)) option" where
  "permute_dialogue g r dialogue speaker_to_permute num_permutations =
     permute_loop g dialogue speaker_to_permute num_permutations []
       (other_turns speaker_to_permute dialogue) r"

section \<open>Dataset of the document classifier (HT notebook, \<^verbatim>\<open>DialogueCoherenceDataset\<close>)\<close>

text \<open>The object under construction: \<^verbatim>\<open>self.dialogues\<close>, \<^verbatim>\<open>self.labels\<close>, \<^verbatim>\<open>self.max_utterances\<close>.\<close>

record 'u dataset =
  self_dialogues :: "'u dialogue list"
  self_labels :: "int list"
  self_max_utterances :: int

text \<open>
  \<^verbatim>\<open>speakers = list({spk for spk, _ in original_dialogue})\<close>: the different speakers, in
  the order of the set; the order only matters to \<^verbatim>\<open>random.choice\<close>.
\<close>

definition speakers_of :: "'u dialogue \<Rightarrow> string list" where
  "speakers_of original_dialogue = remdups (map fst original_dialogue)"

definition valid_speakers :: "'u dialogue \<Rightarrow> string list" where
  "valid_speakers original_dialogue =
     filter (\<lambda>spk. 1 < length (filter (\<lambda>(s, u). s = spk) original_dialogue))
       (speakers_of original_dialogue)"

text \<open>
  \<^verbatim>\<open>for idx, pos in enumerate(selected): shuffled_utts[pos] = utts_to_shuffle[idx]\<close>
\<close>

definition write_back :: "nat list \<Rightarrow> 'u list \<Rightarrow> 'u list \<Rightarrow> 'u list" where
  "write_back selected utts_to_shuffle utts =
     fold (\<lambda>(idx, pos) shuffled_utts. shuffled_utts[pos := utts_to_shuffle ! idx])
       (enumerate 0 selected) utts"

text \<open>
  \<^verbatim>\<open>while attempts < max_attempts\<close>. The result is \<open>Some shuffled_utts\<close> when the loop is
  left by \<^verbatim>\<open>break\<close> with \<^verbatim>\<open>negative_found = True\<close>, and \<open>None\<close> when the attempts run out.
  The comparisons \<^verbatim>\<open>!=\<close> of the loop are equality of the utterances as values, which is
  Python's comparison on the strings that the corpus has as utterances (on other JSON
  values Python also equates \<^verbatim>\<open>True\<close> with \<^verbatim>\<open>1\<close> and \<^verbatim>\<open>False\<close> with \<^verbatim>\<open>0\<close>).
\<close>

function shuffle_attempts ::
  "'r rng \<Rightarrow> 'u list \<Rightarrow> nat \<Rightarrow> nat \<Rightarrow> 'r \<Rightarrow> 'u list option \<times> 'r" where
  "shuffle_attempts g utts attempts max_attempts r =
     (if attempts < max_attempts then
        (case randint g r 2 (length utts) of
           (num_to_shuffle, r1) \<Rightarrow>
             (case sample_range g r1 (length utts) num_to_shuffle of
                (selected, r2) \<Rightarrow>
                  (case shuffle g r2 (map (\<lambda>i. utts ! i) selected) of
                     (utts_to_shuffle, r3) \<Rightarrow>
                       (let shuffled_utts = write_back selected utts_to_shuffle utts in
                        if shuffled_utts \<noteq> utts then (Some shuffled_utts, r3)
                        else shuffle_attempts g utts (attempts + 1) max_attempts r3))))
      else (None, r))"
  by pat_completeness auto
termination
  by (relation "measure (\<lambda>(g, utts, attempts, max_attempts, r). max_attempts - attempts)") auto

text \<open>
  \<^verbatim>\<open>for pos, orig_idx in enumerate(indices): neg_dialogue[orig_idx] = (target_spk, shuffled_utts[pos])\<close>
\<close>

definition substitute :: "string \<Rightarrow> nat list \<Rightarrow> 'u list \<Rightarrow> 'u dialogue \<Rightarrow> 'u dialogue" where
  "substitute target_spk indices shuffled_utts original_dialogue =
     fold (\<lambda>(pos, orig_idx) neg_dialogue. neg_dialogue[orig_idx := (target_spk, shuffled_utts ! pos)])
       (enumerate 0 indices) original_dialogue"

text \<open>
  The body of \<^verbatim>\<open>for original_dialogue in all_dialogues\<close>; the state is the two lists of the
  dataset and the generator.
\<close>

definition add_dialogue ::
  "'r rng \<Rightarrow> 'u dialogue list \<times> int list \<times> 'r \<Rightarrow> 'u dialogue
     \<Rightarrow> 'u dialogue list \<times> int list \<times> 'r" where
  "add_dialogue g st original_dialogue =
     (case st of (ds0, ls0, r) \<Rightarrow>
      (let ds = ds0 @ [original_dialogue];
           ls = ls0 @ [1];
           speakers = speakers_of original_dialogue
       in
       if speakers = [] \<or> length speakers < 2 then (ds, ls, r)
       else
         (let valid = valid_speakers original_dialogue in
          if valid = [] then (ds, ls, r)
          else
            (case choice g r valid of
               (target_spk, r1) \<Rightarrow>
                 (let indices = map fst (filter (\<lambda>(idx, (spk, u)). spk = target_spk)
                                           (enumerate 0 original_dialogue));
                      utts = map (\<lambda>idx. snd (original_dialogue ! idx)) indices
                  in
                  case shuffle_attempts g utts 0 20 r1 of
                    (None, r2) \<Rightarrow> (ds, ls, r2)
                  | (Some shuffled_utts, r2) \<Rightarrow>
                      (let neg_dialogue = substitute target_spk indices shuffled_utts original_dialogue in
                       if neg_dialogue \<noteq> original_dialogue
                       then (ds @ [neg_dialogue], ls @ [0], r2)
                       else (ds, ls, r2)))))))"

text \<open>
  The constructor: seed, load, refuse an empty corpus, then one pass over the dialogues.
  The files are those \<^verbatim>\<open>glob\<close> returns for the folder, each with its lines. The result
  holds the dataset and the lines printed while loading.
\<close>

definition dataset_init ::
  "pylib \<Rightarrow> 'r rng \<Rightarrow> (string \<times> string list) list \<Rightarrow> int \<Rightarrow> int
     \<Rightarrow> error + (json dataset \<times> string list)" where
  "dataset_init lib g data_folder max_utts seed_value =
     (let r0 = seed g seed_value in
      case load_files_ht lib max_utts data_folder ([], []) of
        Inl e \<Rightarrow> Inl e
      | Inr (all_dialogues, printed) \<Rightarrow>
          if all_dialogues = [] then Inl ValueError
          else
            (case fold (\<lambda>d st. add_dialogue g st d) all_dialogues ([], [], r0) of
               (ds, ls, r) \<Rightarrow>
                 Inr (\<lparr>self_dialogues = ds, self_labels = ls, self_max_utterances = max_utts\<rparr>, printed)))"


section \<open>Pairwise feature vector (LCD notebook, \<^verbatim>\<open>build_pairwise_features\<close>)\<close>

text \<open>
  An embedding is a one-dimensional tensor, modelled as a list of reals. The elementwise
  operations of torch broadcast: two tensors of the same length are combined position by
  position, a tensor of length 1 is stretched to the length of the other one, and any
  other pair of lengths raises \<^verbatim>\<open>RuntimeError\<close>.
\<close>

definition broadcast2 :: "(real \<Rightarrow> real \<Rightarrow> real) \<Rightarrow> real list \<Rightarrow> real list \<Rightarrow> error + real list" where
  "broadcast2 f s t =
     (if length s = length t then Inr (map2 f s t)
      else if length s = 1 then Inr (map (\<lambda>y. f (hd s) y) t)
      else if length t = 1 then Inr (map (\<lambda>x. f x (hd t)) s)
      else Inl RuntimeError)"

definition build_pairwise_features :: "real list \<Rightarrow> real list \<Rightarrow> error + real list" where
  "build_pairwise_features s t =
     (case broadcast2 (-) s t of
        Inl e \<Rightarrow> Inl e
      | Inr diff \<Rightarrow>
          (case broadcast2 (-) s t of
             Inl e \<Rightarrow> Inl e
           | Inr diff2 \<Rightarrow>
               (let abs_diff = map abs diff2 in
                case broadcast2 (*) s t of
                  Inl e \<Rightarrow> Inl e
                | Inr dot \<Rightarrow> Inr (s @ t @ diff @ abs_diff @ dot))))"

text \<open>The three derived blocks of a feature vector built from embeddings of dimension \<open>d\<close>.\<close>

definition diff_block :: "nat \<Rightarrow> real list \<Rightarrow> real list" where
  "diff_block d feats = take d (drop (2 * d) feats)"

definition abs_diff_block :: "nat \<Rightarrow> real list \<Rightarrow> real list" where
  "abs_diff_block d feats = take d (drop (3 * d) feats)"

definition dot_block :: "nat \<Rightarrow> real list \<Rightarrow> real list" where
  "dot_block d feats = take d (drop (4 * d) feats)"

section \<open>Mean pooling (LCD notebook, \<^verbatim>\<open>SentenceEncoder.forward\<close>)\<close>

text \<open>
  The pretrained encoder is outside the repository; its output for one sentence is a
  list of token vectors (\<^verbatim>\<open>last_hidden_state\<close>, each of \<open>hidden_size\<close> entries) and the
  tokenizer's attention mask is a list of 0/1 entries, one per token. The pooling that the
  source does after the encoder call is modelled for one sentence of the batch; the batch
  is pooled sentence by sentence.
\<close>

definition masked_embeddings :: "real list list \<Rightarrow> nat list \<Rightarrow> real list list" where
  "masked_embeddings embeddings attention_mask =
     map2 (\<lambda>tok m. map (\<lambda>x. x * real m) tok) embeddings attention_mask"

definition sum_tokens :: "nat \<Rightarrow> real list list \<Rightarrow> real list" where
  "sum_tokens hidden_size toks = map (\<lambda>j. sum_list (map (\<lambda>tok. tok ! j) toks)) [0..<hidden_size]"

definition token_counts :: "nat list \<Rightarrow> real" where
  "token_counts attention_mask = (let c = real (sum_list attention_mask) in if c < 1 then 1 else c)"

definition mean_pool :: "nat \<Rightarrow> real list list \<Rightarrow> nat list \<Rightarrow> real list" where
  "mean_pool hidden_size embeddings attention_mask =
     (let summed = sum_tokens hidden_size (masked_embeddings embeddings attention_mask);
          counts = token_counts attention_mask
      in map (\<lambda>x. x / counts) summed)"

definition mean_pool_batch :: "nat \<Rightarrow> real list list list \<Rightarrow> nat list list \<Rightarrow> real list list" where
  "mean_pool_batch hidden_size embeddings attention_mask =
     map2 (mean_pool hidden_size) embeddings attention_mask"

text \<open>The arithmetic mean of \<open>n\<close> token vectors of \<open>hidden_size\<close> entries.\<close>

definition arithmetic_mean :: "nat \<Rightarrow> real list list \<Rightarrow> real list" where
  "arithmetic_mean hidden_size toks =
     map (\<lambda>j. sum_list (map (\<lambda>tok. tok ! j) toks) / real (length toks)) [0..<hidden_size]"

section \<open>Positive-class weight of the document classifier (HT notebook)\<close>

text \<open>
  \<^verbatim>\<open>BCEWithLogitsLoss(pos_weight=w)\<close> is a loss object holding \<open>w\<close>. Labels are Python
  integers 0 and 1; \<^verbatim>\<open>/\<close> is true division and raises on a zero divisor. The quotient is
  modelled as a real number.
\<close>

record criterion =
  pos_weight :: real

definition py_true_div :: "int \<Rightarrow> int \<Rightarrow> error + real" where
  "py_true_div a b = (if b = 0 then Inl ZeroDivisionError else Inr (real_of_int a / real_of_int b))"

definition criterion_setup :: "int list \<Rightarrow> int list \<Rightarrow> error + (criterion \<times> criterion)" where
  "criterion_setup train_labels val_labels =
     (let n_positive = sum_list train_labels;
          n_negative = int (length train_labels) - n_positive
      in case py_true_div n_negative n_positive of
           Inl e \<Rightarrow> Inl e
         | Inr pos_weight_v \<Rightarrow>
             (let train_criterion = \<lparr>pos_weight = pos_weight_v\<rparr>;
                  val_n_positive = sum_list val_labels;
                  val_n_negative = int (length val_labels) - val_n_positive
              in case py_true_div val_n_negative val_n_positive of
                   Inl e \<Rightarrow> Inl e
                 | Inr val_pos_weight \<Rightarrow>
                     (let val_criterion = \<lparr>pos_weight = pos_weight_v\<rparr>
                      in Inr (train_criterion, val_criterion))))"

section \<open>Bounded margin ranking loss (LCD notebook, \<^verbatim>\<open>bounded_margin_loss\<close>)\<close>

text \<open>
  Scores are modelled as real numbers; the tensors of the source have one element each
  (\<^verbatim>\<open>view(1)\<close>), so the elementwise operations are operations on one scalar.
  \<^verbatim>\<open>torch.clamp(x, min=lo)\<close> returns \<open>x\<close> where \<open>x \<ge> lo\<close> and \<open>lo\<close> elsewhere.
\<close>

definition clamp_min :: "real \<Rightarrow> real \<Rightarrow> real" where
  "clamp_min x lo = (if x < lo then lo else x)"

definition bounded_margin_loss ::
  "real \<Rightarrow> real \<Rightarrow> real \<Rightarrow> real \<Rightarrow> real \<Rightarrow> real \<Rightarrow> real \<Rightarrow> real" where
  "bounded_margin_loss score_pos score_neg margin upper_bound lower_bound lambda_upper lambda_lower =
     (let margin_loss = clamp_min (margin - (score_pos - score_neg)) 0;
          upper_penalty = clamp_min (score_pos - upper_bound) 0;
          lower_penalty = clamp_min (lower_bound - score_pos) 0
      in margin_loss + lambda_upper * upper_penalty + lambda_lower * lower_penalty)"

text \<open>The call of the training and validation loops: every keyword argument at its default.\<close>

definition bounded_margin_loss_default :: "real \<Rightarrow> real \<Rightarrow> real" where
  "bounded_margin_loss_default score_pos score_neg =
     bounded_margin_loss score_pos score_neg 10 10 0 1 1"

section \<open>The pairwise scorer: inference, evaluation and training (LCD notebook)\<close>

text \<open>
  The sentence encoder and the two scorers are torch modules outside the model; a call
  reads and may change the state \<open>'m\<close> of the modules (weights, dropout generator), so each
  is a function from a state to a result and a new state. \<open>optim_step\<close> is
  \<^verbatim>\<open>zero_grad(); backward(); step()\<close> of both optimizers for the given loss.
\<close>

record ('m, 'u) lcd_model =
  encoder :: "'m \<Rightarrow> 'u list \<Rightarrow> real list list \<times> 'm"
  scorer_fwd :: "'m \<Rightarrow> real list \<Rightarrow> real \<times> 'm"
  scorer_bwd :: "'m \<Rightarrow> real list \<Rightarrow> real \<times> 'm"
  optim_step :: "'m \<Rightarrow> real \<Rightarrow> 'm"

text \<open>The encoder returns one row per sentence, all rows of one length.\<close>

definition rows_ok :: "real list list \<Rightarrow> bool" where
  "rows_ok embs \<longleftrightarrow> (\<forall>e \<in> set embs. \<forall>e' \<in> set embs. length e = length e')"

definition encoder_ok :: "('m, 'u) lcd_model \<Rightarrow> bool" where
  "encoder_ok mdl \<longleftrightarrow>
     (\<forall>m us. length (fst (encoder mdl m us)) = length us \<and> rows_ok (fst (encoder mdl m us)))"

text \<open>
  \<^verbatim>\<open>for i in range(len(embeddings) - 1)\<close> of \<^verbatim>\<open>compute_dialogue_pred\<close>, as a recursion over
  the list of the indices; \<^verbatim>\<open>return 0\<close> leaves the loop.
\<close>

fun pred_loop ::
  "('m, 'u) lcd_model \<Rightarrow> real list list \<Rightarrow> nat list \<Rightarrow> 'm \<Rightarrow> error + (int \<times> 'm)" where
  "pred_loop mdl embeddings [] m = Inr (1, m)"
| "pred_loop mdl embeddings (i # rest) m =
     (let s_i = embeddings ! i; s_j = embeddings ! (i + 1) in
      case build_pairwise_features s_i s_j of
        Inl e \<Rightarrow> Inl e
      | Inr feat_fwd \<Rightarrow>
          (case build_pairwise_features s_j s_i of
             Inl e \<Rightarrow> Inl e
           | Inr feat_bwd \<Rightarrow>
               (case scorer_fwd mdl m feat_fwd of
                  (score_fwd, m1) \<Rightarrow>
                    (case scorer_bwd mdl m1 feat_bwd of
                       (score_bwd, m2) \<Rightarrow>
                         (let score = (score_fwd + score_bwd) / 2 in
                          if score < 0 then Inr (0, m2)
                          else pred_loop mdl embeddings rest m2)))))"

text \<open>
  \<^verbatim>\<open>speakers, utterances = zip(*dialogue)\<close> raises \<^verbatim>\<open>ValueError\<close> on the empty dialogue
  (nothing to unpack).
\<close>

definition compute_dialogue_pred ::
  "('m, 'u) lcd_model \<Rightarrow> 'm \<Rightarrow> 'u dialogue \<Rightarrow> error + (int \<times> 'm)" where
  "compute_dialogue_pred mdl m dialogue =
     (if dialogue = [] then Inl ValueError
      else
        (case encoder mdl m (map snd dialogue) of
           (embeddings, m1) \<Rightarrow> pred_loop mdl embeddings [0..<length embeddings - 1] m1))"

text \<open>
  The evaluation protocol \<^verbatim>\<open>test_experiment\<close>. The lists \<^verbatim>\<open>true\<close> and \<^verbatim>\<open>pred\<close> are its
  result; the two metrics computed from them by scikit-learn are left out.
\<close>

fun score_perms ::
  "('m, 'u) lcd_model \<Rightarrow> 'u dialogue list \<Rightarrow> int list \<times> int list \<times> 'm
     \<Rightarrow> error + (int list \<times> int list \<times> 'm)" where
  "score_perms mdl [] st = Inr st"
| "score_perms mdl (perm # perms) (true, pred, m) =
     (case compute_dialogue_pred mdl m perm of
        Inl e \<Rightarrow> Inl e
      | Inr (score2, m') \<Rightarrow> score_perms mdl perms (true @ [0], pred @ [score2], m'))"

fun test_loop ::
  "('m, 'u) lcd_model \<Rightarrow> 'r rng \<Rightarrow> nat \<Rightarrow> 'u dialogue list \<Rightarrow> int list \<times> int list \<times> 'm \<times> 'r
     \<Rightarrow> (error + (int list \<times> int list \<times> 'm \<times> 'r)) option" where
  "test_loop mdl g num_permutations [] st = Some (Inr st)"
| "test_loop mdl g num_permutations (dialogue # rest) (true, pred, m, r) =
     (if length dialogue < 3 then test_loop mdl g num_permutations rest (true, pred, m, r)
      else
        (case compute_dialogue_pred mdl m dialogue of
           Inl e \<Rightarrow> Some (Inl e)
         | Inr (score, m1) \<Rightarrow>
             (case choice g r [''A'', ''B''] of
                (chosen, r1) \<Rightarrow>
                  (case permute_dialogue g r1 dialogue chosen num_permutations of
                     None \<Rightarrow> None
                   | Some (Inl e) \<Rightarrow> Some (Inl e)
                   | Some (Inr (permuted, r2)) \<Rightarrow>
                       (case score_perms mdl permuted (true @ [1], pred @ [score], m1) of
                          Inl e \<Rightarrow> Some (Inl e)
                        | Inr (true', pred', m2) \<Rightarrow>
                            test_loop mdl g num_permutations rest (true', pred', m2, r2))))))"

definition test_experiment ::
  "('m, 'u) lcd_model \<Rightarrow> 'r rng \<Rightarrow> 'm \<Rightarrow> 'r \<Rightarrow> 'u dialogue list \<Rightarrow> nat
     \<Rightarrow> (error + (int list \<times> int list \<times> 'm \<times> 'r)) option" where
  "test_experiment mdl g m r dialogues num_permutations =
     test_loop mdl g num_permutations dialogues ([], [], m, r)"

text \<open>
  Training. The negative candidates of position \<open>i\<close> in a dialogue of \<open>n\<close> embeddings:
  \<^verbatim>\<open>[j for j in range(n) if j != i + 1 and speakers[j] != current_speaker]\<close>.
\<close>

definition candidates :: "string list \<Rightarrow> nat \<Rightarrow> nat \<Rightarrow> nat list" where
  "candidates speakers n i = filter (\<lambda>j. j \<noteq> i + 1 \<and> speakers ! j \<noteq> speakers ! i) [0..<n]"

text \<open>
  The four feature vectors and the four scorer calls of one position, in the order of the
  source, and the two averaged scores.
\<close>

definition score_position ::
  "('m, 'u) lcd_model \<Rightarrow> 'm \<Rightarrow> real list \<Rightarrow> real list \<Rightarrow> real list \<Rightarrow> error + (real \<times> real \<times> 'm)" where
  "score_position mdl m s_i s_pos s_neg =
     (case build_pairwise_features s_i s_pos of
        Inl e \<Rightarrow> Inl e
      | Inr feat_pos_fwd \<Rightarrow>
     (case build_pairwise_features s_i s_neg of
        Inl e \<Rightarrow> Inl e
      | Inr feat_neg_fwd \<Rightarrow>
     (case build_pairwise_features s_pos s_i of
        Inl e \<Rightarrow> Inl e
      | Inr feat_pos_bwd \<Rightarrow>
     (case build_pairwise_features s_neg s_i of
        Inl e \<Rightarrow> Inl e
      | Inr feat_neg_bwd \<Rightarrow>
     (case scorer_fwd mdl m feat_pos_fwd of (score_pos_fwd, m1) \<Rightarrow>
     (case scorer_fwd mdl m1 feat_neg_fwd of (score_neg_fwd, m2) \<Rightarrow>
     (case scorer_bwd mdl m2 feat_pos_bwd of (score_pos_bwd, m3) \<Rightarrow>
     (case scorer_bwd mdl m3 feat_neg_bwd of (score_neg_bwd, m4) \<Rightarrow>
        Inr ((score_pos_fwd + score_pos_bwd) / 2, (score_neg_fwd + score_neg_bwd) / 2, m4)))))))))"

text \<open>
  The inner loop of \<^verbatim>\<open>train_one_epoch\<close>. Its state: \<^verbatim>\<open>dialogue_loss\<close>, \<^verbatim>\<open>pair_count\<close>, the
  variables \<^verbatim>\<open>score_pos\<close> and \<^verbatim>\<open>score_neg\<close> (\<open>None\<close> while they are unbound; they are
  function-level variables and keep their values between dialogues), the modules and
  the generator.
\<close>

fun pair_loop ::
  "('m, 'u) lcd_model \<Rightarrow> 'r rng \<Rightarrow> string list \<Rightarrow> real list list \<Rightarrow> nat list
     \<Rightarrow> real \<times> nat \<times> (real \<times> real) option \<times> 'm \<times> 'r
     \<Rightarrow> error + (real \<times> nat \<times> (real \<times> real) option \<times> 'm \<times> 'r)" where
  "pair_loop mdl g speakers embs [] st = Inr st"
| "pair_loop mdl g speakers embs (i # rest) (dialogue_loss, pair_count, scores, m, r) =
     (let cands = candidates speakers (length embs) i in
      if cands = [] then pair_loop mdl g speakers embs rest (dialogue_loss, pair_count, scores, m, r)
      else
        (case choice g r cands of
           (neg_idx, r1) \<Rightarrow>
             (case score_position mdl m (embs ! i) (embs ! (i + 1)) (embs ! neg_idx) of
                Inl e \<Rightarrow> Inl e
              | Inr (score_pos, score_neg, m1) \<Rightarrow>
                  (let loss = bounded_margin_loss_default score_pos score_neg in
                   pair_loop mdl g speakers embs rest
                     (dialogue_loss + loss, pair_count + 1, Some (score_pos, score_neg), m1, r1)))))"

text \<open>
  The body of \<^verbatim>\<open>for dialogue in dialogues\<close>. The epoch state: \<^verbatim>\<open>total_loss\<close>, \<^verbatim>\<open>correct\<close>,
  \<^verbatim>\<open>total\<close> (here \<open>total_cnt\<close>), the two score variables, the modules and the generator.
\<close>

definition train_dialogue ::
  "('m, 'u) lcd_model \<Rightarrow> 'r rng \<Rightarrow> real \<times> nat \<times> nat \<times> (real \<times> real) option \<times> 'm \<times> 'r
     \<Rightarrow> 'u dialogue \<Rightarrow> error + (real \<times> nat \<times> nat \<times> (real \<times> real) option \<times> 'm \<times> 'r)" where
  "train_dialogue mdl g st dialogue =
     (case st of (total_loss, correct, total_cnt, scores, m, r) \<Rightarrow>
      if length dialogue < 3 then Inr st
      else
        (case encoder mdl m (map snd dialogue) of
           (embs, m1) \<Rightarrow>
             (case pair_loop mdl g (map fst dialogue) embs [0..<length embs - 1] (0, 0, scores, m1, r) of
                Inl e \<Rightarrow> Inl e
              | Inr (dialogue_loss, pair_count, scores', m2, r') \<Rightarrow>
                  if 0 < pair_count then
                    (let dialogue_loss' = dialogue_loss / real pair_count;
                         m3 = optim_step mdl m2 dialogue_loss'
                     in case scores' of
                          None \<Rightarrow> Inl NameError
                        | Some (score_pos, score_neg) \<Rightarrow>
                            Inr (total_loss + dialogue_loss',
                                 (if score_neg < score_pos then correct + 1 else correct),
                                 total_cnt + 1, scores', m3, r'))
                  else Inr (total_loss, correct, total_cnt, scores', m2, r'))))"

fun train_loop ::
  "('m, 'u) lcd_model \<Rightarrow> 'r rng \<Rightarrow> 'u dialogue list
     \<Rightarrow> real \<times> nat \<times> nat \<times> (real \<times> real) option \<times> 'm \<times> 'r
     \<Rightarrow> error + (real \<times> nat \<times> nat \<times> (real \<times> real) option \<times> 'm \<times> 'r)" where
  "train_loop mdl g [] st = Inr st"
| "train_loop mdl g (dialogue # rest) st =
     (case train_dialogue mdl g st dialogue of
        Inl e \<Rightarrow> Inl e
      | Inr st' \<Rightarrow> train_loop mdl g rest st')"

definition train_one_epoch ::
  "('m, 'u) lcd_model \<Rightarrow> 'r rng \<Rightarrow> 'm \<Rightarrow> 'r \<Rightarrow> 'u dialogue list
     \<Rightarrow> error + (real \<times> real \<times> 'm \<times> 'r)" where
  "train_one_epoch mdl g m r dialogues =
     (case train_loop mdl g dialogues (0, 0, 0, None, m, r) of
        Inl e \<Rightarrow> Inl e
      | Inr (total_loss, correct, total_cnt, scores, m', r') \<Rightarrow>
          (let accuracy = (if 0 < total_cnt then real correct / real total_cnt else 0)
           in Inr (total_loss, accuracy, m', r')))"

text \<open>
  The pairs that the inner loop computes for one dialogue, in order: the same traversal as
  \<open>pair_loop\<close>, collecting \<open>(score_pos, score_neg)\<close> of every position that is scored.
\<close>

fun computed_pairs ::
  "('m, 'u) lcd_model \<Rightarrow> 'r rng \<Rightarrow> string list \<Rightarrow> real list list \<Rightarrow> nat list \<Rightarrow> 'm \<Rightarrow> 'r
     \<Rightarrow> (real \<times> real) list" where
  "computed_pairs mdl g speakers embs [] m r = []"
| "computed_pairs mdl g speakers embs (i # rest) m r =
     (let cands = candidates speakers (length embs) i in
      if cands = [] then computed_pairs mdl g speakers embs rest m r
      else
        (case choice g r cands of
           (neg_idx, r1) \<Rightarrow>
             (case score_position mdl m (embs ! i) (embs ! (i + 1)) (embs ! neg_idx) of
                Inl e \<Rightarrow> []
              | Inr (score_pos, score_neg, m1) \<Rightarrow>
                  (score_pos, score_neg) # computed_pairs mdl g speakers embs rest m1 r1)))"


section \<open>Concrete inputs for the runs below\<close>

text \<open>
  Two records as the corpus has them, and a library instance that parses the two lines
  written \<open>GREETING\<close> and \<open>CHAT\<close> to them, the line \<^verbatim>\<open>null\<close> to the JSON null (which is no
  object: \<^verbatim>\<open>obj.get\<close> raises \<^verbatim>\<open>AttributeError\<close> on it), and rejects every other line;
  \<open>strip\<close> removes blanks.
\<close>

definition greeting :: json where
  "greeting = JObject [(''dialogue'', JArray [JObject [(''A'', JString ''hi'')], JObject [(''B'', JString ''hello'')]])]"

definition chat_dialogue :: "json dialogue" where
  "chat_dialogue = [(''A'', JString ''hi''), (''B'', JString ''hello''),
                    (''A'', JString ''how are you''), (''B'', JString ''fine'')]"

definition chat :: json where
  "chat = JObject [(''dialogue'', JArray (map (\<lambda>(s, u). JObject [(s, u)]) chat_dialogue))]"

definition toy_lib :: pylib where
  "toy_lib = \<lparr> loads = (\<lambda>s. if s = ''GREETING'' then Some greeting
                               else if s = ''CHAT'' then Some chat
                               else if s = ''null'' then Some JNull else None),
               strip = filter (\<lambda>c. c \<noteq> CHR '' '') \<rparr>"

text \<open>
  A folder of two files: the first has a line that does not parse between two that do, and
  a blank line; the name of the second does not end in \<^verbatim>\<open>.jsonl\<close>.
\<close>

definition toy_folder :: "(string \<times> string list) list" where
  "toy_folder = [(''f.jsonl'', [''GREETING'', ''{broken'', '' '', ''CHAT'']), (''notes.txt'', [''CHAT''])]"

section \<open>The pairs of a dialogue as the inference loop scores them\<close>

text \<open>
  For embeddings of one length the feature builder returns this vector.
\<close>

definition pairwise_features :: "real list \<Rightarrow> real list \<Rightarrow> real list" where
  "pairwise_features s t = s @ t @ map2 (-) s t @ map abs (map2 (-) s t) @ map2 (*) s t"

text \<open>
  \<open>pair_score mdl embs i m\<close> is the averaged forward/backward score of the adjacent pair
  \<open>(i, i + 1)\<close> when the two scorers are called in state \<open>m\<close>, with the state after the two
  calls. \<open>state_after mdl embs k m\<close> is the state after the pairs \<open>0, \<dots>, k - 1\<close> have been
  scored in this order from \<open>m\<close>, and \<open>score_of_pair mdl embs k m\<close> the score of pair \<open>k\<close>
  in that run.
\<close>

definition pair_score :: "('m, 'u) lcd_model \<Rightarrow> real list list \<Rightarrow> nat \<Rightarrow> 'm \<Rightarrow> real \<times> 'm" where
  "pair_score mdl embs i m =
     (case scorer_fwd mdl m (pairwise_features (embs ! i) (embs ! (i + 1))) of
        (score_fwd, m1) \<Rightarrow>
          (case scorer_bwd mdl m1 (pairwise_features (embs ! (i + 1)) (embs ! i)) of
             (score_bwd, m2) \<Rightarrow> ((score_fwd + score_bwd) / 2, m2)))"

primrec state_after :: "('m, 'u) lcd_model \<Rightarrow> real list list \<Rightarrow> nat \<Rightarrow> 'm \<Rightarrow> 'm" where
  "state_after mdl embs 0 m = m"
| "state_after mdl embs (Suc k) m = snd (pair_score mdl embs k (state_after mdl embs k m))"

definition score_of_pair :: "('m, 'u) lcd_model \<Rightarrow> real list list \<Rightarrow> nat \<Rightarrow> 'm \<Rightarrow> real" where
  "score_of_pair mdl embs k m = fst (pair_score mdl embs k (state_after mdl embs k m))"

text \<open>
  Modules for concrete runs. The state counts the calls of the modules. An utterance is
  embedded as the one-entry vector of its length; the forward scorer returns the third
  feature (the difference of the two embeddings), the backward scorer returns 0, so the
  averaged score of a pair is negative exactly when the second utterance is the longer one.
\<close>

definition toy_model :: "(nat, string) lcd_model" where
  "toy_model = \<lparr> encoder = (\<lambda>m us. (map (\<lambda>u. [real (length u)]) us, Suc m)),
                 scorer_fwd = (\<lambda>m feats. (feats ! 2, Suc m)),
                 scorer_bwd = (\<lambda>m feats. (0, Suc m)),
                 optim_step = (\<lambda>m loss. Suc m) \<rparr>"

definition d1 :: "string dialogue" where
  "d1 = [(''A'', ''hi''), (''B'', ''hello''), (''A'', ''how are you''), (''B'', ''fine'')]"

definition d_same :: "string dialogue" where
  "d_same = [(''A'', ''ok''), (''B'', ''hi''), (''A'', ''ok'')]"

definition d4 :: "string dialogue" where
  "d4 = [(''user'', ''salam alikom''), (''bot'', ''salam''), (''user'', ''labas'')]"

definition d2 :: "string dialogue" where
  "d2 = [(''A'', ''hello''), (''B'', ''hi''), (''A'', ''how are you''), (''B'', ''fine'')]"

definition d3 :: "string dialogue" where
  "d3 = [(''A'', ''how are you''), (''B'', ''hello''), (''A'', ''hi'')]"

section \<open>Comparing a dialogue with its source\<close>

text \<open>
  \<open>replace_utterances spk new d\<close> is \<open>d\<close> with the utterances of the speaker \<open>spk\<close>
  replaced, in order, by the entries of \<open>new\<close>. \<open>differs_in_utterance d d'\<close> says that
  \<open>d'\<close> has the speakers of \<open>d\<close>, turn by turn, and another utterance at some position.
\<close>

fun replace_utterances :: "string \<Rightarrow> 'u list \<Rightarrow> 'u dialogue \<Rightarrow> 'u dialogue" where
  "replace_utterances spk new [] = []"
| "replace_utterances spk new ((speaker, u) # rest) =
     (if speaker = spk then
        (case new of
           [] \<Rightarrow> (speaker, u) # replace_utterances spk [] rest
         | x # xs \<Rightarrow> (speaker, x) # replace_utterances spk xs rest)
      else (speaker, u) # replace_utterances spk new rest)"

definition differs_in_utterance :: "'u dialogue \<Rightarrow> 'u dialogue \<Rightarrow> bool" where
  "differs_in_utterance d d' \<longleftrightarrow>
     map fst d' = map fst d \<and> (\<exists>i < length d. snd (d' ! i) \<noteq> snd (d ! i))"

section \<open>What the loaders are to return\<close>

text \<open>
  The error handling that the specification asks of the loaders, written out line by line
  for comparison with the loops above. A line whose text \<^verbatim>\<open>json.loads\<close> rejects gives no
  dialogue and one warning; a parsed line gives its dialogue when that has at least 2
  turns; \<open>line_raises\<close> marks the lines on which an exception other than
  \<^verbatim>\<open>JSONDecodeError\<close> leaves the \<^verbatim>\<open>try\<close> block (the record is not an object, or its
  \<^verbatim>\<open>dialogue\<close> field cannot be iterated).
\<close>

definition line_raises :: "pylib \<Rightarrow> string \<Rightarrow> bool" where
  "line_raises lib line \<longleftrightarrow>
     (case loads lib line of
        None \<Rightarrow> False
      | Some obj \<Rightarrow> (case extract_dialogue obj of Inl e \<Rightarrow> True | Inr d \<Rightarrow> False))"

definition line_dialogue :: "pylib \<Rightarrow> string \<Rightarrow> json dialogue option" where
  "line_dialogue lib line =
     (case loads lib line of
        None \<Rightarrow> None
      | Some obj \<Rightarrow>
          (case extract_dialogue obj of
             Inl e \<Rightarrow> None
           | Inr d \<Rightarrow> if 2 \<le> length d then Some d else None))"

definition kept_dialogues_spec :: "pylib \<Rightarrow> string list \<Rightarrow> json dialogue list" where
  "kept_dialogues_spec lib lines = List.map_filter (line_dialogue lib) lines"

definition line_warnings_spec :: "pylib \<Rightarrow> string \<Rightarrow> string list \<Rightarrow> string list" where
  "line_warnings_spec lib fname lines =
     map (\<lambda>l. warning fname) (filter (\<lambda>l. loads lib l = None) lines)"

text \<open>The lines of a file as the HT constructor parses them: stripped, blank lines left out.\<close>

definition nonblank :: "pylib \<Rightarrow> string list \<Rightarrow> string list" where
  "nonblank lib lines = filter (\<lambda>l. l \<noteq> []) (map (strip lib) lines)"

definition jsonl_files :: "(string \<times> string list) list \<Rightarrow> (string \<times> string list) list" where
  "jsonl_files folder = filter (\<lambda>(fname, lines). endswith fname ''.jsonl'') folder"

definition lcd_dialogues_spec :: "pylib \<Rightarrow> (string \<times> string list) list \<Rightarrow> json dialogue list" where
  "lcd_dialogues_spec lib folder =
     concat (map (\<lambda>(fname, lines). kept_dialogues_spec lib lines) (jsonl_files folder))"

definition lcd_warnings_spec :: "pylib \<Rightarrow> (string \<times> string list) list \<Rightarrow> string list" where
  "lcd_warnings_spec lib folder =
     concat (map (\<lambda>(fname, lines). line_warnings_spec lib fname lines) (jsonl_files folder))"

definition ht_dialogues_spec :: "pylib \<Rightarrow> int \<Rightarrow> (string \<times> string list) list \<Rightarrow> json dialogue list" where
  "ht_dialogues_spec lib max_utts folder =
     concat (map (\<lambda>(fname, lines).
                    map (\<lambda>d. py_prefix d max_utts) (kept_dialogues_spec lib (nonblank lib lines)))
               folder)"

definition ht_warnings_spec :: "pylib \<Rightarrow> (string \<times> string list) list \<Rightarrow> string list" where
  "ht_warnings_spec lib folder =
     concat (map (\<lambda>(fname, lines). line_warnings_spec lib fname (nonblank lib lines)) folder)"

text \<open>The dialogues of a dataset that carry label 1, in the order of the dataset.\<close>

definition originals :: "'u dialogue list \<Rightarrow> int list \<Rightarrow> 'u dialogue list" where
  "originals ds ls = map fst (filter (\<lambda>(d, l). l = 1) (zip ds ls))"

section \<open>Properties of the bounded margin loss\<close>

text \<open>
  Claim C3. The bounded margin ranking loss is
  \<open>max 0 (m - (score_pos - score_neg)) + \<lambda>\<^sub>U * max 0 (score_pos - U) + \<lambda>\<^sub>L * max 0 (L - score_pos)\<close>,
  with the defaults \<open>m = 10\<close>, \<open>U = 10\<close>, \<open>L = 0\<close>, \<open>\<lambda>\<^sub>U = \<lambda>\<^sub>L = 1\<close>. With the defaults and for
  all real scores it is 0 exactly when \<open>score_pos - score_neg \<ge> 10\<close> and
  \<open>0 \<le> score_pos \<le> 10\<close>, it is strictly positive otherwise, and it does not decrease when
  a condition is violated further: when the negative score rises (strictly increasing
  while the margin is violated), when the positive score rises above the upper bound, and
  when the positive score falls below the upper bound (strictly increasing below the
  lower bound). In terms of the three amounts of violation (the three clamped terms): a
  pair of scores with amounts at least as large has a loss at least as large, and a
  strictly larger loss when one amount is strictly larger.
\<close>

theorem bounded_margin_loss_properties:
  "bounded_margin_loss sp sn m U L lU lL =
      max 0 (m - (sp - sn)) + lU * max 0 (sp - U) + lL * max 0 (L - sp)
   \<and> bounded_margin_loss_default sp sn =
      max 0 (10 - (sp - sn)) + 1 * max 0 (sp - 10) + 1 * max 0 (0 - sp)
   \<and> (bounded_margin_loss_default sp sn = 0 \<longleftrightarrow> 10 \<le> sp - sn \<and> 0 \<le> sp \<and> sp \<le> 10)
   \<and> (\<not> (10 \<le> sp - sn \<and> 0 \<le> sp \<and> sp \<le> 10) \<longrightarrow> 0 < bounded_margin_loss_default sp sn)
   \<and> (sn \<le> sn' \<longrightarrow> bounded_margin_loss_default sp sn \<le> bounded_margin_loss_default sp sn')
   \<and> (sn < sn' \<and> sp - sn' < 10 \<longrightarrow>
        bounded_margin_loss_default sp sn < bounded_margin_loss_default sp sn')
   \<and> (10 \<le> sp \<and> sp \<le> sp' \<longrightarrow>
        bounded_margin_loss_default sp sn \<le> bounded_margin_loss_default sp' sn)
   \<and> (sp' \<le> sp \<and> sp \<le> 10 \<longrightarrow>
        bounded_margin_loss_default sp sn \<le> bounded_margin_loss_default sp' sn)
   \<and> (sp' < sp \<and> sp \<le> 0 \<longrightarrow>
        bounded_margin_loss_default sp sn < bounded_margin_loss_default sp' sn)
   \<and> (max 0 (10 - (sp - sn)) \<le> max 0 (10 - (sp' - sn'))
        \<and> max 0 (sp - 10) \<le> max 0 (sp' - 10) \<and> max 0 (0 - sp) \<le> max 0 (0 - sp') \<longrightarrow>
        bounded_margin_loss_default sp sn \<le> bounded_margin_loss_default sp' sn'
        \<and> (max 0 (10 - (sp - sn)) < max 0 (10 - (sp' - sn'))
             \<or> max 0 (sp - 10) < max 0 (sp' - 10) \<or> max 0 (0 - sp) < max 0 (0 - sp') \<longrightarrow>
             bounded_margin_loss_default sp sn < bounded_margin_loss_default sp' sn'))"
proof -
  have f: "bounded_margin_loss_default a b = max 0 (10 - (a - b)) + max 0 (a - 10) + max 0 (0 - a)" for a b
    by (simp add: bounded_margin_loss_default_def bounded_margin_loss_def clamp_min_def Let_def max_def)
  have g: "bounded_margin_loss sp sn m U L lU lL =
      max 0 (m - (sp - sn)) + lU * max 0 (sp - U) + lL * max 0 (L - sp)"
    by (simp add: bounded_margin_loss_def clamp_min_def Let_def max_def)
  have last: "max 0 (10 - (sp - sn)) \<le> max 0 (10 - (sp' - sn'))
        \<and> max 0 (sp - 10) \<le> max 0 (sp' - 10) \<and> max 0 (0 - sp) \<le> max 0 (0 - sp') \<longrightarrow>
        bounded_margin_loss_default sp sn \<le> bounded_margin_loss_default sp' sn'
        \<and> (max 0 (10 - (sp - sn)) < max 0 (10 - (sp' - sn'))
             \<or> max 0 (sp - 10) < max 0 (sp' - 10) \<or> max 0 (0 - sp) < max 0 (0 - sp') \<longrightarrow>
             bounded_margin_loss_default sp sn < bounded_margin_loss_default sp' sn')"
    unfolding f by linarith
  have rest: "bounded_margin_loss_default sp sn =
      max 0 (10 - (sp - sn)) + 1 * max 0 (sp - 10) + 1 * max 0 (0 - sp)
   \<and> (bounded_margin_loss_default sp sn = 0 \<longleftrightarrow> 10 \<le> sp - sn \<and> 0 \<le> sp \<and> sp \<le> 10)
   \<and> (\<not> (10 \<le> sp - sn \<and> 0 \<le> sp \<and> sp \<le> 10) \<longrightarrow> 0 < bounded_margin_loss_default sp sn)
   \<and> (sn \<le> sn' \<longrightarrow> bounded_margin_loss_default sp sn \<le> bounded_margin_loss_default sp sn')
   \<and> (sn < sn' \<and> sp - sn' < 10 \<longrightarrow>
        bounded_margin_loss_default sp sn < bounded_margin_loss_default sp sn')
   \<and> (10 \<le> sp \<and> sp \<le> sp' \<longrightarrow>
        bounded_margin_loss_default sp sn \<le> bounded_margin_loss_default sp' sn)
   \<and> (sp' \<le> sp \<and> sp \<le> 10 \<longrightarrow>
        bounded_margin_loss_default sp sn \<le> bounded_margin_loss_default sp' sn)
   \<and> (sp' < sp \<and> sp \<le> 0 \<longrightarrow>
        bounded_margin_loss_default sp sn < bounded_margin_loss_default sp' sn)"
    unfolding f by (auto simp: max_def)
  show ?thesis using g rest last by blast
qed

theorem bounded_margin_loss_properties_witness:
  "bounded_margin_loss_default 5 (- 5) = 0
   \<and> 0 < bounded_margin_loss_default 5 (- 4)
   \<and> bounded_margin_loss_default 5 (- 4) < bounded_margin_loss_default 5 (- 3)
   \<and> bounded_margin_loss_default 5 (- 4) \<le> bounded_margin_loss_default 2 (- 4)
   \<and> 0 < bounded_margin_loss_default (- 1) (- 20)
   \<and> bounded_margin_loss_default (- 1) (- 20) < bounded_margin_loss_default (- 2) (- 20)
   \<and> 0 < bounded_margin_loss_default 11 0
   \<and> bounded_margin_loss_default 11 0 \<le> bounded_margin_loss_default 12 0
   \<and> bounded_margin_loss_default 11 0 < bounded_margin_loss_default 12 1"
  using bounded_margin_loss_properties [of 5 "- 5" 0 0 0 0 0 "- 5" 5]
        bounded_margin_loss_properties [of 5 "- 4" 0 0 0 0 0 "- 3" 2]
        bounded_margin_loss_properties [of "- 1" "- 20" 0 0 0 0 0 "- 20" "- 2"]
        bounded_margin_loss_properties [of 11 0 0 0 0 0 0 0 12]
        bounded_margin_loss_properties [of 11 0 0 0 0 0 0 1 12]
  by simp

section \<open>Properties of the pairwise feature vector\<close>

lemma build_pairwise_features_same_length:
  "length s = length t \<Longrightarrow>
   build_pairwise_features s t =
     Inr (s @ t @ map2 (-) s t @ map abs (map2 (-) s t) @ map2 (*) s t)"
  by (simp add: build_pairwise_features_def broadcast2_def)

lemma map2_minus_swap: "map2 (-) t s = map uminus (map2 (-) s (t::real list))"
  by (induction s arbitrary: t) (auto simp: neq_Nil_conv split: list.splits, case_tac t, auto)

lemma map2_abs_swap: "map abs (map2 (-) t s) = map abs (map2 (-) s (t::real list))"
  by (simp add: map2_minus_swap[of t s])

lemma map2_times_swap: "map2 (*) t s = map2 (*) s (t::real list)"
  apply (induction s arbitrary: t) apply simp apply (case_tac t) apply auto done

lemma map2_minus_self_neg:
  "length s = length t \<Longrightarrow> map2 (-) s t = map uminus (map2 (-) s t) \<Longrightarrow> s = (t::real list)"
  by (induction s t rule: list_induct2) auto

text \<open>
  Claim C5, as amended. For embeddings \<open>s\<close>, \<open>t\<close> of dimension \<open>d\<close> the feature builder
  returns a vector of length \<open>5 * d\<close> laid out as \<open>[s, t, s - t, |s - t|, s * t]\<close>: its first
  block is \<open>s\<close>, its second block is \<open>t\<close>. Swapping \<open>s\<close> and \<open>t\<close> negates the difference
  block and leaves the absolute-difference block and the product block as they are;
  whenever \<open>s \<noteq> t\<close> the two feature vectors differ, and so do their difference blocks.
\<close>

theorem features_layout:
  assumes "length s = d" and "length t = d"
  shows "\<exists>f f'. build_pairwise_features s t = Inr f \<and> build_pairwise_features t s = Inr f'
     \<and> length f = 5 * d \<and> take d f = s \<and> take d (drop d f) = t
     \<and> diff_block d f = map2 (-) s t
     \<and> abs_diff_block d f = map abs (map2 (-) s t)
     \<and> dot_block d f = map2 (*) s t
     \<and> diff_block d f' = map uminus (diff_block d f)
     \<and> abs_diff_block d f' = abs_diff_block d f
     \<and> dot_block d f' = dot_block d f
     \<and> (s \<noteq> t \<longrightarrow> f \<noteq> f' \<and> diff_block d f' \<noteq> diff_block d f)"
proof -
  let ?f = "s @ t @ map2 (-) s t @ map abs (map2 (-) s t) @ map2 (*) s t"
  let ?f' = "t @ s @ map2 (-) t s @ map abs (map2 (-) t s) @ map2 (*) t s"
  have f: "build_pairwise_features s t = Inr ?f"
    using assms by (simp add: build_pairwise_features_same_length)
  have f': "build_pairwise_features t s = Inr ?f'"
    using assms by (simp add: build_pairwise_features_same_length)
  have len: "length ?f = 5 * d" using assms by simp
  have b1: "take d ?f = s" using assms by simp
  have b2: "take d (drop d ?f) = t" using assms by simp
  have b3: "diff_block d ?f = map2 (-) s t" using assms by (simp add: diff_block_def)
  have b4: "abs_diff_block d ?f = map abs (map2 (-) s t)" using assms by (simp add: abs_diff_block_def)
  have b5: "dot_block d ?f = map2 (*) s t" using assms by (simp add: dot_block_def)
  have c3: "diff_block d ?f' = map2 (-) t s" using assms by (simp add: diff_block_def)
  have c4: "abs_diff_block d ?f' = map abs (map2 (-) t s)" using assms by (simp add: abs_diff_block_def)
  have c5: "dot_block d ?f' = map2 (*) t s" using assms by (simp add: dot_block_def)
  have s1: "diff_block d ?f' = map uminus (diff_block d ?f)"
    unfolding b3 c3 by (rule map2_minus_swap)
  have s2: "abs_diff_block d ?f' = abs_diff_block d ?f"
    unfolding b4 c4 by (rule map2_abs_swap)
  have s3: "dot_block d ?f' = dot_block d ?f"
    unfolding b5 c5 by (rule map2_times_swap)
  have ne: "s \<noteq> t \<longrightarrow> ?f \<noteq> ?f' \<and> diff_block d ?f' \<noteq> diff_block d ?f"
  proof
    assume st: "s \<noteq> t"
    have "?f \<noteq> ?f'" using st assms by simp
    moreover have "diff_block d ?f' \<noteq> diff_block d ?f"
    proof
      assume "diff_block d ?f' = diff_block d ?f"
      then have "map2 (-) s t = map uminus (map2 (-) s t)" using s1 b3 by simp
      then show False using map2_minus_self_neg[of s t] assms st by simp
    qed
    ultimately show "?f \<noteq> ?f' \<and> diff_block d ?f' \<noteq> diff_block d ?f" by simp
  qed
  show ?thesis
    using f f' len b1 b2 b3 b4 b5 s1 s2 s3 ne by blast
qed

theorem features_layout_witness:
  "length [1, 2 :: real] = 2 \<and> length [3, 5 :: real] = 2 \<and> 
   (\<exists>f f'. build_pairwise_features [1, 2] [3, 5] = Inr f \<and> build_pairwise_features [3, 5] [1, 2] = Inr f'
      \<and> length f = 10 \<and> take 2 f = [1, 2] \<and> take 2 (drop 2 f) = [3, 5] \<and> f \<noteq> f'
      \<and> abs_diff_block 2 f' = abs_diff_block 2 f \<and> dot_block 2 f' = dot_block 2 f)"
  using features_layout [of "[1, 2]" 2 "[3, 5]"] by auto

text \<open>
  Claim C5 as stated says that swapping changes the absolute-difference and the product
  sub-vectors. For \<open>s = [1]\<close> and \<open>t = [2]\<close> both are the same in either order.
\<close>

theorem features_swap_counterexample:
  "[1] \<noteq> [2 :: real]
   \<and> build_pairwise_features [1] [2] = Inr [1, 2, - 1, 1, 2]
   \<and> build_pairwise_features [2] [1] = Inr [2, 1, 1, 1, 2]
   \<and> abs_diff_block 1 [1, 2, - 1, 1, 2] = abs_diff_block 1 [2, 1, 1, 1, 2]
   \<and> dot_block 1 [1, 2, - 1, 1, 2] = dot_block 1 [2, 1, 1, 1, 2]"
  by (simp add: build_pairwise_features_def broadcast2_def abs_diff_block_def dot_block_def)

section \<open>Properties of the positive-class weight\<close>

text \<open>
  Claim C6. The loss weight of the positive class is the number of negatives divided by
  the number of positives of the training split, and the validation loss gets this same
  weight: the ratio of the validation split is computed, and the result does not depend
  on it. With 100 positives and 60 negatives the weight is 0.6.
\<close>

theorem pos_weight_train_reused:
  assumes "sum_list train_labels \<noteq> 0" and "sum_list val_labels \<noteq> 0"
  shows "criterion_setup train_labels val_labels =
           Inr (\<lparr>pos_weight = real_of_int (int (length train_labels) - sum_list train_labels)
                               / real_of_int (sum_list train_labels)\<rparr>,
                \<lparr>pos_weight = real_of_int (int (length train_labels) - sum_list train_labels)
                               / real_of_int (sum_list train_labels)\<rparr>)"
  using assms by (simp add: criterion_setup_def py_true_div_def Let_def)

theorem pos_weight_train_reused_witness:
  "sum_list (replicate 100 1 @ replicate 60 (0::int)) \<noteq> 0 \<and> sum_list [1, 0, 0, 0 :: int] \<noteq> 0
   \<and> criterion_setup (replicate 100 1 @ replicate 60 0) [1, 0, 0, 0] =
       Inr (\<lparr>pos_weight = 0.6\<rparr>, \<lparr>pos_weight = 0.6\<rparr>)"
  using pos_weight_train_reused [of "replicate 100 1 @ replicate 60 0" "[1, 0, 0, 0]"]
  by (simp add: sum_list_replicate)

section \<open>Properties of mean pooling\<close>

lemma masked_all_ones: "length toks = n \<Longrightarrow> masked_embeddings toks (replicate n (Suc 0)) = toks"
  by (simp add: masked_embeddings_def map2_map_map zip_replicate2 map_idI)

lemma masked_all_zeros:
  "length toks = n \<Longrightarrow> masked_embeddings toks (replicate n 0) = map (\<lambda>tok. replicate (length tok) 0) toks"
  by (simp add: masked_embeddings_def map2_map_map zip_replicate2 map_replicate_const)

lemma sum_tokens_zero:
  "\<forall>tok \<in> set toks. length tok = d \<Longrightarrow>
   sum_tokens d (map (\<lambda>tok. replicate (length tok) 0) toks) = replicate d 0"
proof -
  assume a: "\<forall>tok \<in> set toks. length tok = d"
  have "\<And>j. j < d \<Longrightarrow> sum_list (map (\<lambda>tok. tok ! j) (map (\<lambda>tok. replicate (length tok) (0::real)) toks)) = 0"
    using a by (induction toks) auto
  then have "map (\<lambda>j. sum_list (map (\<lambda>tok. tok ! j) (map (\<lambda>tok. replicate (length tok) (0::real)) toks))) [0..<d]
              = map (\<lambda>j. 0) [0..<d]"
    by (intro map_cong) auto
  then show ?thesis by (simp add: sum_tokens_def map_replicate_const)
qed

lemma masked_column:
  assumes "\<forall>tok \<in> set toks. length tok = d" and "j < d"
  shows "map (\<lambda>tok. tok ! j) (masked_embeddings toks am) = map2 (\<lambda>tok m. tok ! j * real m) toks am"
proof -
  have "map (\<lambda>tok. tok ! j) (masked_embeddings toks am)
          = map (\<lambda>p. map (\<lambda>x. x * real (snd p)) (fst p) ! j) (zip toks am)"
    by (simp add: masked_embeddings_def case_prod_beta)
  also have "\<dots> = map (\<lambda>p. fst p ! j * real (snd p)) (zip toks am)"
  proof (rule map_cong)
    show "zip toks am = zip toks am" by simp
    fix p assume "p \<in> set (zip toks am)"
    then have "fst p \<in> set toks" by (metis prod.collapse set_zip_leftD)
    then have "j < length (fst p)" using assms by simp
    then show "map (\<lambda>x. x * real (snd p)) (fst p) ! j = fst p ! j * real (snd p)" by simp
  qed
  also have "\<dots> = map2 (\<lambda>tok m. tok ! j * real m) toks am"
    by (simp add: case_prod_beta)
  finally show ?thesis .
qed

lemma mean_pool_rule:
  assumes "\<forall>tok \<in> set toks. length tok = d"
  shows "mean_pool d toks am =
           map (\<lambda>j. sum_list (map2 (\<lambda>tok m. tok ! j * real m) toks am) / token_counts am) [0..<d]"
proof -
  have "map (\<lambda>j. sum_list (map (\<lambda>tok. tok ! j) (masked_embeddings toks am))) [0..<d]
          = map (\<lambda>j. sum_list (map2 (\<lambda>tok m. tok ! j * real m) toks am)) [0..<d]"
  proof (rule map_cong)
    show "[0..<d] = [0..<d]" by simp
    fix j assume "j \<in> set [0..<d]"
    then have "j < d" by simp
    then show "sum_list (map (\<lambda>tok. tok ! j) (masked_embeddings toks am))
                 = sum_list (map2 (\<lambda>tok m. tok ! j * real m) toks am)"
      using masked_column[OF assms] by simp
  qed
  then show ?thesis
    by (simp add: mean_pool_def sum_tokens_def Let_def comp_def)
qed

lemma map2_replicate_right:
  "map2 f xs (replicate (length xs) c) = map (\<lambda>x. f x c) xs"
  by (induction xs) auto

lemma padded_column:
  "sum_list (map2 (\<lambda>tok m. tok ! j * real m) (toks @ pad)
               (replicate (length toks) 1 @ replicate (length pad) 0))
     = sum_list (map (\<lambda>tok. tok ! j) toks)"
proof -
  have a: "sum_list (map2 (\<lambda>tok m. tok ! j * real m) toks (replicate (length toks) 1))
             = sum_list (map (\<lambda>tok. tok ! j) toks)"
    by (simp only: map2_replicate_right) simp
  have b: "sum_list (map2 (\<lambda>tok m. tok ! j * real m) pad (replicate (length pad) 0)) = 0"
    by (simp only: map2_replicate_right) simp
  have "sum_list (map2 (\<lambda>tok m. tok ! j * real m) (toks @ pad)
               (replicate (length toks) 1 @ replicate (length pad) 0))
          = sum_list (map2 (\<lambda>tok m. tok ! j * real m) toks (replicate (length toks) 1))
            + sum_list (map2 (\<lambda>tok m. tok ! j * real m) pad (replicate (length pad) 0))"
    by (simp del: One_nat_def)
  then show ?thesis unfolding a b by simp
qed

lemma mean_pool_padding:
  assumes "toks \<noteq> []" and "\<forall>tok \<in> set (toks @ pad). length tok = d"
  shows "mean_pool d (toks @ pad) (replicate (length toks) 1 @ replicate (length pad) 0)
           = arithmetic_mean d toks"
proof -
  have c: "token_counts (replicate (length toks) 1 @ replicate (length pad) 0) = real (length toks)"
    using assms(1) by (cases toks) (simp_all add: token_counts_def Let_def sum_list_replicate)
  show ?thesis
    unfolding mean_pool_rule[OF assms(2)] c padded_column arithmetic_mean_def by simp
qed

text \<open>
  Claim C7. Mean pooling divides the mask-weighted sum of the token vectors by the number
  of real tokens clamped to at least 1, so the divisor is never below 1: for every mask,
  entry \<open>j\<close> of the result is the sum over the tokens of (entry \<open>j\<close> of the token times
  its mask entry), divided by the larger of 1 and the sum of the mask. With a mask of
  all ones over \<open>n > 0\<close> tokens the divisor is \<open>n\<close> and the result is the arithmetic mean
  of the token vectors; with a mask of all zeros the divisor is 1 and the result is the
  zero vector; with ones on the real tokens and zeros on the padding that follows them
  the result is the arithmetic mean of the real tokens, whatever the padded positions
  hold. A batch is pooled sentence by sentence.
\<close>

theorem mean_pool_guarded:
  "1 \<le> token_counts attention_mask
   \<and> (length toks = n \<and> 0 < n \<longrightarrow>
        token_counts (replicate n 1) = real n
        \<and> mean_pool d toks (replicate n 1) = arithmetic_mean d toks)
   \<and> (length toks = n \<and> (\<forall>tok \<in> set toks. length tok = d) \<longrightarrow>
        token_counts (replicate n 0) = 1
        \<and> mean_pool d toks (replicate n 0) = replicate d 0)
   \<and> ((\<forall>tok \<in> set toks. length tok = d) \<longrightarrow>
        mean_pool d toks attention_mask =
          map (\<lambda>j. sum_list (map2 (\<lambda>tok m. tok ! j * real m) toks attention_mask)
                    / (if real (sum_list attention_mask) < 1 then 1 else real (sum_list attention_mask)))
            [0..<d])
   \<and> (toks \<noteq> [] \<and> (\<forall>tok \<in> set (toks @ pad). length tok = d) \<longrightarrow>
        mean_pool d (toks @ pad) (replicate (length toks) 1 @ replicate (length pad) 0)
          = arithmetic_mean d toks)
   \<and> (i < length batch \<and> i < length masks \<longrightarrow>
        mean_pool_batch d batch masks ! i = mean_pool d (batch ! i) (masks ! i))"
proof (intro conjI impI)
  assume "\<forall>tok \<in> set toks. length tok = d"
  then show "mean_pool d toks attention_mask =
          map (\<lambda>j. sum_list (map2 (\<lambda>tok m. tok ! j * real m) toks attention_mask)
                    / (if real (sum_list attention_mask) < 1 then 1 else real (sum_list attention_mask)))
            [0..<d]"
    by (simp only: mean_pool_rule token_counts_def Let_def)
next
  assume "toks \<noteq> [] \<and> (\<forall>tok \<in> set (toks @ pad). length tok = d)"
  then show "mean_pool d (toks @ pad) (replicate (length toks) 1 @ replicate (length pad) 0)
          = arithmetic_mean d toks"
    using mean_pool_padding[of toks pad d] by blast
next
  assume "i < length batch \<and> i < length masks"
  then show "mean_pool_batch d batch masks ! i = mean_pool d (batch ! i) (masks ! i)"
    by (simp add: mean_pool_batch_def)
next
  show "1 \<le> token_counts attention_mask"
  proof (cases "real (sum_list attention_mask) < 1")
    case True
    then have "token_counts attention_mask = 1" unfolding token_counts_def Let_def by (simp only: if_True)
    then show ?thesis by simp
  next
    case False
    then have "token_counts attention_mask = real (sum_list attention_mask)"
      unfolding token_counts_def Let_def by (simp only: if_False)
    then show ?thesis using False by linarith
  qed
next
  assume "length toks = n \<and> 0 < n"
  then show "token_counts (replicate n 1) = real n"
    by (simp add: token_counts_def Let_def sum_list_replicate)
next
  assume a: "length toks = n \<and> 0 < n"
  then have "token_counts (replicate n 1) = real n"
    by (simp add: token_counts_def Let_def sum_list_replicate)
  then show "mean_pool d toks (replicate n 1) = arithmetic_mean d toks"
    using a by (simp add: mean_pool_def arithmetic_mean_def masked_all_ones sum_tokens_def Let_def)
next
  show "token_counts (replicate n 0) = 1" by (simp add: token_counts_def Let_def sum_list_replicate)
next
  assume a: "length toks = n \<and> (\<forall>tok \<in> set toks. length tok = d)"
  have c: "token_counts (replicate n 0) = 1" by (simp add: token_counts_def Let_def sum_list_replicate)
  show "mean_pool d toks (replicate n 0) = replicate d 0"
    using a by (simp add: mean_pool_def c masked_all_zeros sum_tokens_zero Let_def)
qed

theorem mean_pool_guarded_witness:
  "1 \<le> token_counts [0, 0]
   \<and> mean_pool 2 [[1, 2], [3, 6]] (replicate 2 1) = arithmetic_mean 2 [[1, 2], [3, 6]]
   \<and> arithmetic_mean 2 [[1, 2], [3, 6]] = [2, 4]
   \<and> mean_pool 2 [[1, 2], [3, 6]] (replicate 2 0) = replicate 2 0
   \<and> mean_pool 2 [[1, 2], [3, 6], [100, 200]] [1, 0, 1] = [101 / 2, 101]
   \<and> mean_pool 2 [[1, 2], [3, 6], [100, 200]] [1, 1, 0] = [2, 4]
   \<and> mean_pool_batch 2 [[[1, 2], [3, 6]], [[5, 7], [100, 200]]] [[1, 1], [1, 0]] ! 1
        = mean_pool 2 [[5, 7], [100, 200]] [1, 0]"
proof -
  have am: "arithmetic_mean 2 [[1, 2], [3, 6]] = [2, 4]" by code_simp
  have rows: "\<forall>tok \<in> set [[1, 2], [3, 6], [100, 200 :: real]]. length tok = 2" by simp
  have rows': "[[1, 2], [3, 6 :: real]] \<noteq> []
                 \<and> (\<forall>tok \<in> set ([[1, 2], [3, 6]] @ [[100, 200 :: real]]). length tok = 2)" by simp
  have ev: "map (\<lambda>j. sum_list (map2 (\<lambda>tok m. tok ! j * real m) [[1, 2], [3, 6], [100, 200]] [1, 0, 1])
                    / (if real (sum_list [1, 0, 1]) < 1 then 1 else real (sum_list [1, 0, 1])))
            [0..<2] = [101 / 2, 101 :: real]"
    by code_simp
  note T1 = mean_pool_guarded [where attention_mask = "[0, 0]" and toks = "[[1, 2], [3, 6]]"
      and n = 2 and d = 2 and pad = "[[100, 200]]"
      and batch = "[[[1, 2], [3, 6]], [[5, 7], [100, 200]]]" and masks = "[[1, 1], [1, 0]]" and i = 1]
  note T2 = mean_pool_guarded [where attention_mask = "[1, 0, 1]" and toks = "[[1, 2], [3, 6], [100, 200]]"
      and d = 2]
  have c1: "1 \<le> token_counts [0, 0]" using T1 by blast
  have c2: "mean_pool 2 [[1, 2], [3, 6]] (replicate 2 1) = arithmetic_mean 2 [[1, 2], [3, 6]]"
    using T1 by simp
  have c3: "mean_pool 2 [[1, 2], [3, 6]] (replicate 2 0) = replicate 2 0"
    using T1 by simp
  have c4: "mean_pool 2 [[1, 2], [3, 6], [100, 200]] [1, 0, 1] = [101 / 2, 101]"
    using T2 rows ev by simp
  have c5: "mean_pool 2 [[1, 2], [3, 6], [100, 200]] [1, 1, 0] = [2, 4]"
    using T1 rows' am by simp
  have c6: "mean_pool_batch 2 [[[1, 2], [3, 6]], [[5, 7], [100, 200]]] [[1, 1], [1, 0]] ! 1
        = mean_pool 2 [[5, 7], [100, 200]] [1, 0]"
    using T1 by simp
  show ?thesis using c1 c2 am c3 c4 c5 c6 by simp
qed

section \<open>Properties of the inference rule\<close>

lemma build_pairwise_features_eq:
  "length s = length t \<Longrightarrow> build_pairwise_features s t = Inr (pairwise_features s t)"
  by (simp add: build_pairwise_features_same_length pairwise_features_def)

lemma pred_loop_step:
  assumes "length (embs ! i) = length (embs ! (i + 1))"
  shows "pred_loop mdl embs (i # rest) m =
     (if fst (pair_score mdl embs i m) < 0 then Inr (0, snd (pair_score mdl embs i m))
      else pred_loop mdl embs rest (snd (pair_score mdl embs i m)))"
proof -
  have f1: "build_pairwise_features (embs ! i) (embs ! (i + 1)) = Inr (pairwise_features (embs ! i) (embs ! (i + 1)))"
    using assms by (rule build_pairwise_features_eq)
  have f2: "build_pairwise_features (embs ! (i + 1)) (embs ! i) = Inr (pairwise_features (embs ! (i + 1)) (embs ! i))"
    using assms by (simp add: build_pairwise_features_eq)
  show ?thesis
    using f1 f2 by (simp add: pair_score_def Let_def split: prod.split)
qed

lemma rows_ok_adjacent: "rows_ok embs \<Longrightarrow> i + 1 < length embs \<Longrightarrow> length (embs ! i) = length (embs ! (i + 1))"
  by (simp add: rows_ok_def)

lemma pred_loop_all_nonneg:
  assumes "rows_ok embs" and "n < length embs"
  shows "i \<le> n \<Longrightarrow> (\<forall>j. i \<le> j \<and> j < n \<longrightarrow> 0 \<le> score_of_pair mdl embs j m1) \<Longrightarrow>
         pred_loop mdl embs [i..<n] (state_after mdl embs i m1) = Inr (1, state_after mdl embs n m1)"
proof (induction "n - i" arbitrary: i)
  case 0
  then show ?case by simp
next
  case (Suc d)
  then have lt: "i < n" by simp
  have len: "length (embs ! i) = length (embs ! (i + 1))"
    using assms lt by (intro rows_ok_adjacent) auto
  have nn: "\<not> fst (pair_score mdl embs i (state_after mdl embs i m1)) < 0"
    using Suc.prems(2) lt by (auto simp: score_of_pair_def not_less)
  have "pred_loop mdl embs [i..<n] (state_after mdl embs i m1)
          = pred_loop mdl embs [Suc i..<n] (state_after mdl embs (Suc i) m1)"
    using lt nn by (simp add: upt_conv_Cons pred_loop_step[OF len] del: pred_loop.simps)
  also have "\<dots> = Inr (1, state_after mdl embs n m1)"
    using Suc.hyps(2) Suc.prems lt by (intro Suc.hyps(1)) auto
  finally show ?case .
qed

lemma pred_loop_first_negative:
  assumes "rows_ok embs" and "n < length embs" and "k < n" and "score_of_pair mdl embs k m1 < 0"
  shows "i \<le> k \<Longrightarrow> (\<forall>j. i \<le> j \<and> j < k \<longrightarrow> 0 \<le> score_of_pair mdl embs j m1) \<Longrightarrow>
         pred_loop mdl embs [i..<n] (state_after mdl embs i m1) = Inr (0, state_after mdl embs (Suc k) m1)"
proof (induction "k - i" arbitrary: i)
  case 0
  then have ik: "i = k" by simp
  have len: "length (embs ! k) = length (embs ! (k + 1))"
    using assms by (intro rows_ok_adjacent) auto
  have neg: "fst (pair_score mdl embs k (state_after mdl embs k m1)) < 0"
    using assms(4) by (simp add: score_of_pair_def)
  show ?case unfolding ik
    using assms(3) neg by (simp add: upt_conv_Cons pred_loop_step[OF len] del: pred_loop.simps)
next
  case (Suc d)
  then have lt: "i < k" by simp
  then have ltn: "i < n" using assms(3) by simp
  have len: "length (embs ! i) = length (embs ! (i + 1))"
    using assms ltn by (intro rows_ok_adjacent) auto
  have nn: "\<not> fst (pair_score mdl embs i (state_after mdl embs i m1)) < 0"
    using Suc.prems(2) lt by (auto simp: score_of_pair_def not_less)
  have "pred_loop mdl embs [i..<n] (state_after mdl embs i m1)
          = pred_loop mdl embs [Suc i..<n] (state_after mdl embs (Suc i) m1)"
    using ltn nn by (simp add: upt_conv_Cons pred_loop_step[OF len] del: pred_loop.simps)
  also have "\<dots> = Inr (0, state_after mdl embs (Suc k) m1)"
    using Suc.hyps(2) Suc.prems lt by (intro Suc.hyps(1)) auto
  finally show ?case .
qed

lemma encoder_ok_rows: "encoder_ok mdl \<Longrightarrow> encoder mdl m us = (embs, m1) \<Longrightarrow> rows_ok embs \<and> length embs = length us"
  unfolding encoder_ok_def
  by (metis fst_conv)

text \<open>
  Claim C4. For a dialogue (not empty) whose utterances the encoder maps to the
  embeddings \<open>embs\<close>, \<^verbatim>\<open>compute_dialogue_pred\<close> returns 0 if and only if the averaged
  forward/backward score of some adjacent pair is negative, and 1 otherwise. It stops at
  the first negative pair \<open>k\<close>: the modules are left in the state reached by scoring the
  pairs \<open>0, \<dots>, k\<close> and no later pair is scored; when no pair is negative every pair has
  been scored. The encoder is called once, on all the utterances, and the function has no
  random generator to draw a negative from.
\<close>

theorem predict_rule:
  assumes "encoder_ok mdl" and "dialogue \<noteq> []" and "encoder mdl m (map snd dialogue) = (embs, m1)"
  shows "(k < length embs - 1 \<and> score_of_pair mdl embs k m1 < 0
            \<and> (\<forall>j<k. 0 \<le> score_of_pair mdl embs j m1) \<longrightarrow>
          compute_dialogue_pred mdl m dialogue = Inr (0, state_after mdl embs (Suc k) m1))
       \<and> ((\<forall>j < length embs - 1. 0 \<le> score_of_pair mdl embs j m1) \<longrightarrow>
          compute_dialogue_pred mdl m dialogue = Inr (1, state_after mdl embs (length embs - 1) m1))
       \<and> (\<exists>lbl m'. compute_dialogue_pred mdl m dialogue = Inr (lbl, m')
            \<and> (lbl = 0 \<or> lbl = 1)
            \<and> (lbl = 0 \<longleftrightarrow> (\<exists>j < length embs - 1. score_of_pair mdl embs j m1 < 0)))"
proof -
  have rows: "rows_ok embs" and len: "length embs = length dialogue"
    using encoder_ok_rows[OF assms(1) assms(3)] by simp_all
  have n: "length embs - 1 < length embs" using len assms(2) by (cases embs) auto
  have cdp: "compute_dialogue_pred mdl m dialogue
               = pred_loop mdl embs [0..<length embs - 1] (state_after mdl embs 0 m1)"
    using assms(2,3) by (simp add: compute_dialogue_pred_def)
  have A: "compute_dialogue_pred mdl m dialogue = Inr (0, state_after mdl embs (Suc k') m1)"
    if "k' < length embs - 1" "score_of_pair mdl embs k' m1 < 0" "\<forall>j<k'. 0 \<le> score_of_pair mdl embs j m1" for k'
  proof -
    have "\<forall>j. 0 \<le> j \<and> j < k' \<longrightarrow> 0 \<le> score_of_pair mdl embs j m1" using that(3) by blast
    then show ?thesis
      unfolding cdp by (intro pred_loop_first_negative[OF rows n that(1) that(2)]) simp_all
  qed
  have B: "compute_dialogue_pred mdl m dialogue = Inr (1, state_after mdl embs (length embs - 1) m1)"
    if "\<forall>j < length embs - 1. 0 \<le> score_of_pair mdl embs j m1"
  proof -
    have "\<forall>j. 0 \<le> j \<and> j < length embs - 1 \<longrightarrow> 0 \<le> score_of_pair mdl embs j m1" using that by blast
    then show ?thesis
      unfolding cdp by (intro pred_loop_all_nonneg[OF rows n]) simp_all
  qed
  have C: "\<exists>lbl m'. compute_dialogue_pred mdl m dialogue = Inr (lbl, m')
            \<and> (lbl = 0 \<or> lbl = 1)
            \<and> (lbl = 0 \<longleftrightarrow> (\<exists>j < length embs - 1. score_of_pair mdl embs j m1 < 0))"
  proof (cases "\<exists>j < length embs - 1. score_of_pair mdl embs j m1 < 0")
    case True
    define Q where "Q j \<longleftrightarrow> j < length embs - 1 \<and> score_of_pair mdl embs j m1 < 0" for j
    have "\<exists>j. Q j" using True by (auto simp: Q_def)
    then obtain k' where k': "Q k'" and least: "\<forall>j<k'. \<not> Q j"
      using exists_least_iff[of Q] by blast
    have "\<forall>j<k'. 0 \<le> score_of_pair mdl embs j m1"
      using least k' by (auto simp: Q_def not_less)
    then have "compute_dialogue_pred mdl m dialogue = Inr (0, state_after mdl embs (Suc k') m1)"
      using A[of k'] k' by (simp add: Q_def)
    then show ?thesis using True by simp
  next
    case False
    then have "\<forall>j < length embs - 1. 0 \<le> score_of_pair mdl embs j m1" by (meson not_less)
    then have "compute_dialogue_pred mdl m dialogue = Inr (1, state_after mdl embs (length embs - 1) m1)"
      by (rule B)
    then show ?thesis using False by simp
  qed
  show ?thesis using A[of k] B C by blast
qed

theorem predict_rule_witness:
  "encoder_ok toy_model \<and> d2 \<noteq> [] \<and> d3 \<noteq> []
   \<and> encoder toy_model 0 (map snd d2) = ([[5], [2], [11], [4]], 1)
   \<and> encoder toy_model 0 (map snd d3) = ([[11], [5], [2]], 1)
   \<and> score_of_pair toy_model [[5], [2], [11], [4]] 0 1 = 3 / 2
   \<and> score_of_pair toy_model [[5], [2], [11], [4]] 1 1 = - 9 / 2
   \<and> compute_dialogue_pred toy_model 0 d2 = Inr (0, 5)
   \<and> score_of_pair toy_model [[11], [5], [2]] 0 1 = 3
   \<and> score_of_pair toy_model [[11], [5], [2]] 1 1 = 3 / 2
   \<and> compute_dialogue_pred toy_model 0 d3 = Inr (1, 5)"
proof -
  have ok: "encoder_ok toy_model"
    by (auto simp: encoder_ok_def rows_ok_def toy_model_def)
  have ne2: "d2 \<noteq> []" and ne3: "d3 \<noteq> []" by (simp_all add: d2_def d3_def)
  have e2: "encoder toy_model 0 (map snd d2) = ([[5], [2], [11], [4]], 1)"
    by (simp add: toy_model_def d2_def)
  have e3: "encoder toy_model 0 (map snd d3) = ([[11], [5], [2]], 1)"
    by (simp add: toy_model_def d3_def)
  have s20: "score_of_pair toy_model [[5], [2], [11], [4]] 0 1 = 3 / 2"
    by (simp add: score_of_pair_def pair_score_def pairwise_features_def toy_model_def)
  have st21: "state_after toy_model [[5], [2], [11], [4]] (Suc 0) 1 = 3"
    by (simp add: pair_score_def toy_model_def)
  have s21: "score_of_pair toy_model [[5], [2], [11], [4]] 1 1 = - 9 / 2"
    unfolding score_of_pair_def One_nat_def st21
    by (simp add: pair_score_def pairwise_features_def toy_model_def)
  have st22: "state_after toy_model [[5], [2], [11], [4]] (Suc 1) 1 = 5"
    unfolding One_nat_def state_after.simps(2)[of _ _ "Suc 0"] st21
    by (simp add: pair_score_def toy_model_def)
  have s30: "score_of_pair toy_model [[11], [5], [2]] 0 1 = 3"
    by (simp add: score_of_pair_def pair_score_def pairwise_features_def toy_model_def)
  have st31: "state_after toy_model [[11], [5], [2]] (Suc 0) 1 = 3"
    by (simp add: pair_score_def toy_model_def)
  have s31: "score_of_pair toy_model [[11], [5], [2]] 1 1 = 3 / 2"
    unfolding score_of_pair_def One_nat_def st31
    by (simp add: pair_score_def pairwise_features_def toy_model_def)
  have st32: "state_after toy_model [[11], [5], [2]] (length [[11], [5], [2::real]] - 1) 1 = 5"
    using st31 by (simp add: pair_score_def toy_model_def)
  have all2: "\<forall>j<1. 0 \<le> score_of_pair toy_model [[5], [2], [11], [4]] j 1"
    using s20 by simp
  have all3: "\<forall>j < length [[11], [5], [2::real]] - 1. 0 \<le> score_of_pair toy_model [[11], [5], [2]] j 1"
  proof (intro allI impI)
    fix j :: nat assume "j < length [[11], [5], [2::real]] - 1"
    then have "j = 0 \<or> j = 1" by auto
    then show "0 \<le> score_of_pair toy_model [[11], [5], [2]] j 1" using s30 s31 by auto
  qed
  have c2: "compute_dialogue_pred toy_model 0 d2 = Inr (0, 5)"
    using predict_rule [OF ok ne2 e2, of 1] s21 all2 st22 by simp
  have c3: "compute_dialogue_pred toy_model 0 d3 = Inr (1, 5)"
    using predict_rule [OF ok ne3 e3, of 0] all3 st32 by simp
  show ?thesis using ok ne2 ne3 e2 e3 s20 s21 s30 s31 c2 c3 by simp
qed

section \<open>Properties of the training accuracy bookkeeping\<close>

lemma choice_in_set:
  assumes "rng_ok g" and "xs \<noteq> []" and "choice g r xs = (x, r')"
  shows "x \<in> set xs"
proof -
  obtain i r1 where rb: "randbelow g r (length xs) = (i, r1)" by (cases "randbelow g r (length xs)") auto
  have "fst (randbelow g r (length xs)) < length xs"
    using assms(1,2) unfolding rng_ok_def by simp
  then have "i < length xs" using rb by simp
  moreover have "x = xs ! i" using assms(3) rb by (simp add: choice_def)
  ultimately show ?thesis by simp
qed

lemma score_position_ok:
  assumes "length s_i = length s_pos" and "length s_i = length s_neg"
  shows "\<exists>sp sn m1. score_position mdl m s_i s_pos s_neg = Inr (sp, sn, m1)"
proof -
  have f1: "build_pairwise_features s_i s_pos = Inr (pairwise_features s_i s_pos)"
    using assms by (simp add: build_pairwise_features_eq)
  have f2: "build_pairwise_features s_i s_neg = Inr (pairwise_features s_i s_neg)"
    using assms by (simp add: build_pairwise_features_eq)
  have f3: "build_pairwise_features s_pos s_i = Inr (pairwise_features s_pos s_i)"
    using assms by (simp add: build_pairwise_features_eq)
  have f4: "build_pairwise_features s_neg s_i = Inr (pairwise_features s_neg s_i)"
    using assms by (simp add: build_pairwise_features_eq)
  obtain a m1 where c1: "scorer_fwd mdl m (pairwise_features s_i s_pos) = (a, m1)"
    by (cases "scorer_fwd mdl m (pairwise_features s_i s_pos)") auto
  obtain b m2 where c2: "scorer_fwd mdl m1 (pairwise_features s_i s_neg) = (b, m2)"
    by (cases "scorer_fwd mdl m1 (pairwise_features s_i s_neg)") auto
  obtain c m3 where c3: "scorer_bwd mdl m2 (pairwise_features s_pos s_i) = (c, m3)"
    by (cases "scorer_bwd mdl m2 (pairwise_features s_pos s_i)") auto
  obtain d m4 where c4: "scorer_bwd mdl m3 (pairwise_features s_neg s_i) = (d, m4)"
    by (cases "scorer_bwd mdl m3 (pairwise_features s_neg s_i)") auto
  have "score_position mdl m s_i s_pos s_neg = Inr ((a + c) / 2, (b + d) / 2, m4)"
    unfolding score_position_def f1 f2 f3 f4 by (simp add: c1 c2 c3 c4)
  then show ?thesis by blast
qed

lemma candidates_bound: "j \<in> set (candidates speakers n i) \<Longrightarrow> j < n"
  by (simp add: candidates_def)

lemma pair_loop_result:
  assumes "rows_ok embs" and "rng_ok g"
  shows "\<forall>i \<in> set idxs. i + 1 < length embs \<Longrightarrow>
     \<exists>dl' m' r'. pair_loop mdl g speakers embs idxs (dl, pc, sc, m, r)
        = Inr (dl', pc + length (computed_pairs mdl g speakers embs idxs m r),
               (if computed_pairs mdl g speakers embs idxs m r = [] then sc
                else Some (last (computed_pairs mdl g speakers embs idxs m r))), m', r')"
proof (induction idxs arbitrary: dl pc sc m r)
  case Nil
  show ?case by simp
next
  case (Cons i rest)
  have rest_ok: "\<forall>i \<in> set rest. i + 1 < length embs" using Cons.prems by simp
  have i_ok: "i + 1 < length embs" using Cons.prems by simp
  show ?case
  proof (cases "candidates speakers (length embs) i = []")
    case True
    have pl: "pair_loop mdl g speakers embs (i # rest) (dl, pc, sc, m, r)
            = pair_loop mdl g speakers embs rest (dl, pc, sc, m, r)"
      using True by (simp add: Let_def)
    have cp: "computed_pairs mdl g speakers embs (i # rest) m r
            = computed_pairs mdl g speakers embs rest m r"
      using True by (simp add: Let_def)
    show ?thesis unfolding pl cp by (rule Cons.IH[OF rest_ok])
  next
    case False
    obtain neg_idx r1 where ch: "choice g r (candidates speakers (length embs) i) = (neg_idx, r1)"
      by (cases "choice g r (candidates speakers (length embs) i)") auto
    have "neg_idx \<in> set (candidates speakers (length embs) i)"
      using choice_in_set[OF assms(2) False ch] .
    then have neg_ok: "neg_idx < length embs" by (rule candidates_bound)
    have l1: "length (embs ! i) = length (embs ! (i + 1))"
      using assms(1) i_ok by (simp add: rows_ok_def)
    have l2: "length (embs ! i) = length (embs ! neg_idx)"
      using assms(1) i_ok neg_ok by (simp add: rows_ok_def)
    obtain sp sn m1 where scp: "score_position mdl m (embs ! i) (embs ! (i + 1)) (embs ! neg_idx) = Inr (sp, sn, m1)"
      using score_position_ok[OF l1 l2, of mdl m] by blast
    have pl: "pair_loop mdl g speakers embs (i # rest) (dl, pc, sc, m, r)
            = pair_loop mdl g speakers embs rest
                (dl + bounded_margin_loss_default sp sn, pc + 1, Some (sp, sn), m1, r1)"
      using False ch scp by (simp add: Let_def)
    have cp: "computed_pairs mdl g speakers embs (i # rest) m r
            = (sp, sn) # computed_pairs mdl g speakers embs rest m1 r1"
      using False ch scp by (simp add: Let_def)
    show ?thesis
      unfolding pl cp
      using Cons.IH[OF rest_ok, of "dl + bounded_margin_loss_default sp sn" "pc + 1" "Some (sp, sn)" m1 r1]
      by auto
  qed
qed

lemma rng_ok_det_rng: "rng_ok det_rng"
  by (auto simp: rng_ok_def det_rng_def)

lemma encoder_ok_toy_model: "encoder_ok toy_model"
  by (auto simp: encoder_ok_def rows_ok_def toy_model_def)

text \<open>
  Claim C8. In the training of the pairwise scorer a dialogue (of at least 3 turns) is
  counted as correct if and only if a pair was computed for it and the last computed
  pair has \<open>score_pos > score_neg\<close>; it is counted in the total if and only if a pair was
  computed. The pairs computed before the last one do not enter the count. (The list
  \<open>pairs\<close> is the list of the pairs the inner loop computes, in order.)
\<close>

theorem training_accuracy_bookkeeping:
  assumes "encoder_ok mdl" and "rng_ok g" and "3 \<le> length dialogue"
    and "encoder mdl m (map snd dialogue) = (embs, m1)"
    and "pairs = computed_pairs mdl g (map fst dialogue) embs [0..<length embs - 1] m1 r"
  shows "\<exists>total_loss' scores' m' r'.
           train_dialogue mdl g (total_loss, correct, total_cnt, scores, m, r) dialogue
             = Inr (total_loss',
                    (if pairs \<noteq> [] \<and> snd (last pairs) < fst (last pairs) then correct + 1 else correct),
                    (if pairs \<noteq> [] then total_cnt + 1 else total_cnt),
                    scores', m', r')"
proof -
  have rows: "rows_ok embs" using encoder_ok_rows[OF assms(1,4)] by simp
  have idx: "\<forall>i \<in> set [0..<length embs - 1]. i + 1 < length embs" by auto
  obtain dl' m2 r' where pl:
    "pair_loop mdl g (map fst dialogue) embs [0..<length embs - 1] (0, 0, scores, m1, r)
       = Inr (dl', 0 + length pairs, (if pairs = [] then scores else Some (last pairs)), m2, r')"
    using pair_loop_result[OF rows assms(2) idx, of mdl "map fst dialogue" 0 0 scores m1 r] assms(5) by blast
  show ?thesis
  proof (cases "pairs = []")
    case True
    then show ?thesis using assms(3,4) pl by (simp add: train_dialogue_def)
  next
    case False
    obtain sp sn where lp: "last pairs = (sp, sn)" by (cases "last pairs") auto
    show ?thesis using False assms(3,4) pl lp by (simp add: train_dialogue_def Let_def)
  qed
qed

theorem training_accuracy_bookkeeping_witness:
  "encoder_ok toy_model \<and> rng_ok det_rng \<and> 3 \<le> length d1 \<and> 3 \<le> length d2
   \<and> encoder toy_model 0 (map snd d1) = ([[2], [5], [11], [4]], 1)
   \<and> computed_pairs toy_model det_rng (map fst d1) [[2], [5], [11], [4]] [0..<length [[2], [5], [11], [4::real]] - 1] 1 0
        = [(- 3 / 2, - 1), (- 3, 3 / 2), (7 / 2, 3)]
   \<and> (\<exists>total_loss' scores' m' r'.
         train_dialogue toy_model det_rng (0, 0, 0, None, 0, 0) d1 = Inr (total_loss', 1, 1, scores', m', r'))
   \<and> encoder toy_model 0 (map snd d2) = ([[5], [2], [11], [4]], 1)
   \<and> computed_pairs toy_model det_rng (map fst d2) [[5], [2], [11], [4]] [0..<length [[5], [2], [11], [4::real]] - 1] 1 0
        = [(3 / 2, 1 / 2), (- 9 / 2, - 3 / 2), (7 / 2, 9 / 2)]
   \<and> (\<exists>total_loss' scores' m' r'.
         train_dialogue toy_model det_rng (0, 0, 0, None, 0, 0) d2 = Inr (total_loss', 0, 1, scores', m', r'))"
proof -
  have l1: "3 \<le> length d1" and l2: "3 \<le> length d2" by (simp_all add: d1_def d2_def)
  have e1: "encoder toy_model 0 (map snd d1) = ([[2], [5], [11], [4]], 1)"
    by (simp add: toy_model_def d1_def)
  have e2: "encoder toy_model 0 (map snd d2) = ([[5], [2], [11], [4]], 1)"
    by (simp add: toy_model_def d2_def)
  have p1: "computed_pairs toy_model det_rng (map fst d1) [[2], [5], [11], [4]] [0..<length [[2], [5], [11], [4::real]] - 1] 1 0
        = [(- 3 / 2, - 1), (- 3, 3 / 2), (7 / 2, 3)]"
    by code_simp
  have p2: "computed_pairs toy_model det_rng (map fst d2) [[5], [2], [11], [4]] [0..<length [[5], [2], [11], [4::real]] - 1] 1 0
        = [(3 / 2, 1 / 2), (- 9 / 2, - 3 / 2), (7 / 2, 9 / 2)]"
    by code_simp
  have c1: "\<exists>total_loss' scores' m' r'.
         train_dialogue toy_model det_rng (0, 0, 0, None, 0, 0) d1 = Inr (total_loss', 1, 1, scores', m', r')"
    using training_accuracy_bookkeeping [OF encoder_ok_toy_model rng_ok_det_rng l1 e1 p1 [symmetric], of 0 0 0 None]
    by simp
  have c2: "\<exists>total_loss' scores' m' r'.
         train_dialogue toy_model det_rng (0, 0, 0, None, 0, 0) d2 = Inr (total_loss', 0, 1, scores', m', r')"
    using training_accuracy_bookkeeping [OF encoder_ok_toy_model rng_ok_det_rng l2 e2 p2 [symmetric], of 0 0 0 None]
    by simp
  show ?thesis
    using encoder_ok_toy_model rng_ok_det_rng l1 l2 e1 e2 p1 p2 c1 c2 by simp
qed

section \<open>Properties of the shuffle loops\<close>

lemma rng_ok_shuffle_perm:
  "rng_ok g \<Longrightarrow> mset (fst (shuffle_perm g r n)) = mset [0..<n]"
  by (simp add: rng_ok_def)

lemma shuffle_mset:
  assumes "rng_ok g" and "shuffle g r xs = (ys, r')"
  shows "mset ys = mset xs"
proof -
  obtain p r1 where sp: "shuffle_perm g r (length xs) = (p, r1)"
    by (cases "shuffle_perm g r (length xs)") auto
  have "mset (fst (shuffle_perm g r (length xs))) = mset [0..<length xs]"
    using assms(1) by (rule rng_ok_shuffle_perm)
  then have mp: "mset p = mset [0..<length xs]" using sp by simp
  have ys: "ys = map (\<lambda>i. xs ! i) p" using assms(2) sp by (simp add: shuffle_def)
  have "mset ys = image_mset (\<lambda>i. xs ! i) (mset p)" unfolding ys by simp
  also have "\<dots> = image_mset (\<lambda>i. xs ! i) (mset [0..<length xs])" using mp by simp
  also have "\<dots> = mset (map (\<lambda>i. xs ! i) [0..<length xs])" by simp
  also have "\<dots> = mset xs" by (simp add: map_nth)
  finally show ?thesis .
qed

lemma mset_all_equal:
  assumes "mset ys = mset xs" and "set xs \<subseteq> {x}"
  shows "ys = xs"
proof -
  have sx: "xs = replicate (length xs) x"
    using assms(2) by (intro replicate_eqI) auto
  have "set ys = set xs" using assms(1) by (rule mset_eq_setD)
  then have "set ys \<subseteq> {x}" using assms(2) by simp
  then have sy: "ys = replicate (length ys) x" by (intro replicate_eqI) auto
  have "length ys = length xs" using assms(1) by (rule mset_eq_length)
  then show ?thesis using sx sy by simp
qed

lemma shuffle_until_different_None:
  assumes "rng_ok (g :: 'a rng)" and "set (xs :: 'b list) \<subseteq> {x}"
  shows "shuffle_until_different g xs xs r = None"
proof -
  let ?Q = "\<lambda>g' ts sh (r0 :: 'a) (y :: 'b list \<times> 'a). rng_ok g' \<longrightarrow> set ts \<subseteq> {x} \<longrightarrow> sh = ts \<longrightarrow> False"
  have step: "?Q g' ts sh r0 y"
    if IH: "\<And>g' ts sh r0 y. sud g' ts sh r0 = Some y \<Longrightarrow> ?Q g' ts sh r0 y"
      and body: "(case shuffle g' r0 sh of
                    (s', r') \<Rightarrow> if s' \<noteq> ts then Some (s', r') else sud g' ts s' r') = Some y"
    for sud g' ts sh r0 y
  proof (intro impI)
    assume ok: "rng_ok g'" and eq: "set ts \<subseteq> {x}" and sh: "sh = ts"
    obtain s' r' where s: "shuffle g' r0 ts = (s', r')" by (cases "shuffle g' r0 ts") auto
    have "s' = ts" using shuffle_mset[OF ok s] eq by (rule mset_all_equal)
    then have "sud g' ts ts r' = Some y" using body s sh by simp
    then show False using IH ok eq by blast
  qed
  have "?Q g xs xs r y" if "shuffle_until_different g xs xs r = Some y" for y
    by (rule shuffle_until_different.raw_induct[where P = ?Q, OF step that])
  then show ?thesis using assms by (cases "shuffle_until_different g xs xs r") auto
qed

lemma shuffle_until_different_Some:
  assumes "shuffle_until_different (g :: 'a rng) (ts :: 'b list) sh r = Some y"
  shows "rng_ok g \<longrightarrow> mset sh = mset ts \<longrightarrow> fst y \<noteq> ts \<and> mset (fst y) = mset ts"
proof -
  let ?Q = "\<lambda>g ts sh (r :: 'a) (y :: 'b list \<times> 'a).
              rng_ok g \<longrightarrow> mset sh = mset ts \<longrightarrow> fst y \<noteq> ts \<and> mset (fst y) = mset ts"
  have step: "?Q g ts sh r y"
    if IH: "\<And>g ts sh r y. sud g ts sh r = Some y \<Longrightarrow> ?Q g ts sh r y"
      and body: "(case shuffle g r sh of
                    (s', r') \<Rightarrow> if s' \<noteq> ts then Some (s', r') else sud g ts s' r') = Some y"
    for sud g ts sh r y
  proof (intro impI)
    assume ok: "rng_ok g" and ms: "mset sh = mset ts"
    obtain s' r1 where sf: "shuffle g r sh = (s', r1)" by (cases "shuffle g r sh") auto
    have ms': "mset s' = mset ts" using shuffle_mset[OF ok sf] ms by simp
    show "fst y \<noteq> ts \<and> mset (fst y) = mset ts"
    proof (cases "s' \<noteq> ts")
      case True
      then have "y = (s', r1)" using body sf by simp
      then show ?thesis using True ms' by simp
    next
      case False
      then have "sud g ts s' r1 = Some y" using body sf by simp
      then show ?thesis using IH ok ms' by blast
    qed
  qed
  show ?thesis
    by (rule shuffle_until_different.raw_induct[where P = ?Q, OF step assms])
qed


lemma filter_enumerate_snd:
  "map snd (filter (\<lambda>(idx, turn). P turn) (enumerate n d)) = filter P d"
  by (induction d arbitrary: n) auto


lemma length_speaker_indices:
  "length (speaker_indices spk d) = length (filter (\<lambda>turn. fst turn = spk) d)"
proof -
  have "length (speaker_indices spk d)
          = length (map snd (filter (\<lambda>(idx, turn). fst turn = spk) (enumerate 0 d)))"
    by (simp add: speaker_indices_def)
  then show ?thesis by (simp only: filter_enumerate_snd)
qed

lemma length_speaker_utterances:
  "length (speaker_utterances spk d) = length (speaker_indices spk d)"
  by (simp add: speaker_utterances_def speaker_indices_def)

lemma rng_ok_randint:
  "rng_ok g \<Longrightarrow> a \<le> b \<Longrightarrow> a \<le> fst (randint g r a b) \<and> fst (randint g r a b) \<le> b"
  by (simp add: rng_ok_def)

lemma rng_ok_sample:
  "rng_ok g \<Longrightarrow> k \<le> n \<Longrightarrow>
   length (fst (sample_range g r n k)) = k \<and> distinct (fst (sample_range g r n k))
     \<and> set (fst (sample_range g r n k)) \<subseteq> {..<n}"
  by (simp add: rng_ok_def)

lemma sample_facts:
  assumes "rng_ok g" and "2 \<le> n" and "randint g r 2 n = (k, r1)" and "sample_range g r1 n k = (sub, r2)"
  shows "length sub = k" and "distinct sub" and "\<forall>i \<in> set sub. i < n" and "2 \<le> k"
proof -
  have "2 \<le> fst (randint g r 2 n) \<and> fst (randint g r 2 n) \<le> n"
    using assms(1,2) by (rule rng_ok_randint)
  then have k: "2 \<le> k" "k \<le> n" using assms(3) by simp_all
  have "length (fst (sample_range g r1 n k)) = k \<and> distinct (fst (sample_range g r1 n k))
          \<and> set (fst (sample_range g r1 n k)) \<subseteq> {..<n}"
    using assms(1) k(2) by (rule rng_ok_sample)
  then show "length sub = k" and "distinct sub" and "\<forall>i \<in> set sub. i < n"
    using assms(4) by auto
  show "2 \<le> k" by (rule k(1))
qed

lemma update_all_same: "set xs \<subseteq> {u} \<Longrightarrow> xs[i := u] = xs"
proof (cases "i < length xs")
  case True
  assume "set xs \<subseteq> {u}"
  then have "xs ! i = u" using True nth_mem by fastforce
  then show ?thesis by (metis list_update_id)
next
  case False
  then have "length xs \<le> i" by simp
  then show ?thesis by (rule list_update_beyond)
qed

lemma write_back_all_same:
  assumes "set utts \<subseteq> {u}" and "length us = length selected" and "set us \<subseteq> {u}"
  shows "write_back selected us utts = utts"
proof -
  have "\<forall>(idx, pos) \<in> set ps. idx < length us \<Longrightarrow>
        fold (\<lambda>(idx, pos) shuffled_utts. shuffled_utts[pos := us ! idx]) ps utts = utts" for ps
  proof (induction ps)
    case Nil
    show ?case by simp
  next
    case (Cons p ps)
    obtain idx pos where p: "p = (idx, pos)" by (cases p)
    have "idx < length us" using Cons.prems p by simp
    then have "us ! idx = u" using assms(3) nth_mem by fastforce
    then have "utts[pos := us ! idx] = utts" using assms(1) by (simp add: update_all_same)
    then show ?case using Cons p by simp
  qed
  moreover have "\<forall>(idx, pos) \<in> set (enumerate 0 selected). idx < length us"
    using assms(2) by (auto simp: in_set_enumerate_eq)
  ultimately show ?thesis unfolding write_back_def by blast
qed

lemma shuffle_attempts_gives_up:
  assumes "rng_ok g" and "set utts \<subseteq> {u}" and "2 \<le> length utts"
  shows "fst (shuffle_attempts g utts attempts max_attempts r) = None"
proof (induction "max_attempts - attempts" arbitrary: attempts r)
  case 0
  then have "\<not> attempts < max_attempts" by simp
  then show ?case by (subst shuffle_attempts.simps) (simp del: shuffle_attempts.simps)
next
  case (Suc n)
  then have lt: "attempts < max_attempts" by simp
  obtain k r1 where ri: "randint g r 2 (length utts) = (k, r1)"
    by (cases "randint g r 2 (length utts)") auto
  obtain sel r2 where sa: "sample_range g r1 (length utts) k = (sel, r2)"
    by (cases "sample_range g r1 (length utts) k") auto
  obtain us r3 where sh: "shuffle g r2 (map (\<lambda>i. utts ! i) sel) = (us, r3)"
    by (cases "shuffle g r2 (map (\<lambda>i. utts ! i) sel)") auto
  note sf = sample_facts[OF assms(1,3) ri sa]
  have ms: "mset us = mset (map (\<lambda>i. utts ! i) sel)" using assms(1) sh by (rule shuffle_mset)
  have len: "length us = length sel" using mset_eq_length[OF ms] by simp
  have "set (map (\<lambda>i. utts ! i) sel) \<subseteq> {u}"
  proof
    fix x assume "x \<in> set (map (\<lambda>i. utts ! i) sel)"
    then obtain i where "i \<in> set sel" and x: "x = utts ! i" by auto
    then have "i < length utts" using sf(3) by simp
    then have "x \<in> set utts" unfolding x by (rule nth_mem)
    then show "x \<in> {u}" using assms(2) by blast
  qed
  then have sub: "set us \<subseteq> {u}" using mset_eq_setD[OF ms] by simp
  have wb: "write_back sel us utts = utts"
    using assms(2) len sub by (rule write_back_all_same)
  have "shuffle_attempts g utts attempts max_attempts r
          = shuffle_attempts g utts (attempts + 1) max_attempts r3"
    by (subst shuffle_attempts.simps) (simp add: lt ri sa sh wb Let_def del: shuffle_attempts.simps)
  moreover have "fst (shuffle_attempts g utts (attempts + 1) max_attempts r3) = None"
    using Suc.hyps(2) by (intro Suc.hyps(1)) simp
  ultimately show ?case by simp
qed

text \<open>
  Claim C2 says that negative synthesis ends for every dialogue and target speaker after
  a bounded number of shuffles (20 by default). The loop of the HT dataset is bounded:
  \<open>shuffle_attempts\<close> is a total function whose recursion counts the attempts up to
  \<open>max_attempts\<close>. The loop of \<^verbatim>\<open>permute_dialogue\<close> has no bound. Whenever the target
  speaker has at least two utterances and all of them are the same text, no shuffle of
  the selected utterances differs from their original order: the call of
  \<^verbatim>\<open>permute_dialogue\<close> never returns, whatever the generator draws, while the loop of the
  HT dataset on the same utterances gives up after its 20 attempts.
\<close>

theorem permute_dialogue_unbounded_retry:
  assumes "rng_ok g"
    and "2 \<le> length (speaker_indices speaker_to_permute dialogue)"
    and "set (speaker_utterances speaker_to_permute dialogue) \<subseteq> {u}"
    and "0 < num_permutations"
  shows "permute_dialogue g r dialogue speaker_to_permute num_permutations = None
       \<and> fst (shuffle_attempts g (speaker_utterances speaker_to_permute dialogue) 0 20 r) = None"
proof -
  let ?idxs = "speaker_indices speaker_to_permute dialogue"
  let ?utts = "speaker_utterances speaker_to_permute dialogue"
  obtain n where n: "num_permutations = Suc n" using assms(4) by (cases num_permutations) auto
  obtain k r1 where ri: "randint g r 2 (length ?idxs) = (k, r1)"
    by (cases "randint g r 2 (length ?idxs)") auto
  obtain sub r2 where sa: "sample_range g r1 (length ?idxs) k = (sub, r2)"
    by (cases "sample_range g r1 (length ?idxs) k") auto
  have inb: "\<forall>i \<in> set sub. i < length ?idxs"
    using sample_facts(3)[OF assms(1,2) ri sa] .
  have "set (map (\<lambda>i. ?utts ! i) sub) \<subseteq> {u}"
  proof
    fix x assume "x \<in> set (map (\<lambda>i. ?utts ! i) sub)"
    then obtain i where i: "i \<in> set sub" and x: "x = ?utts ! i" by auto
    have "i < length ?utts" using inb i by (simp add: length_speaker_utterances)
    then have "x \<in> set ?utts" unfolding x by (rule nth_mem)
    then show "x \<in> {u}" using assms(3) by blast
  qed
  then have none: "shuffle_until_different g (map (\<lambda>i. ?utts ! i) sub) (map (\<lambda>i. ?utts ! i) sub) r2 = None"
    by (rule shuffle_until_different_None[OF assms(1)])
  have nl: "\<not> length ?idxs < 2" using assms(2) by simp
  have "permute_loop g dialogue speaker_to_permute (Suc n) []
          (other_turns speaker_to_permute dialogue) r = None"
    by (subst permute_loop.simps(2))
       (simp only: Let_def nl if_False ri sa prod.case none option.case)
  then have lcd: "permute_dialogue g r dialogue speaker_to_permute num_permutations = None"
    by (simp only: permute_dialogue_def n)
  have "2 \<le> length ?utts" using assms(2) by (simp add: length_speaker_utterances)
  then have ht: "fst (shuffle_attempts g ?utts 0 20 r) = None"
    using assms(1,3) by (intro shuffle_attempts_gives_up) simp_all
  show ?thesis using lcd ht by simp
qed

theorem permute_dialogue_unbounded_retry_witness:
  "rng_ok det_rng
   \<and> 2 \<le> length (speaker_indices ''A'' d_same)
   \<and> set (speaker_utterances ''A'' d_same) \<subseteq> {''ok''}
   \<and> permute_dialogue det_rng 0 d_same ''A'' 1 = None
   \<and> shuffle_attempts det_rng (speaker_utterances ''A'' d_same) 0 20 0 = (None, 60)"
proof -
  have a: "2 \<le> length (speaker_indices ''A'' d_same)"
    by (simp add: speaker_indices_def d_same_def)
  have b: "set (speaker_utterances ''A'' d_same) \<subseteq> {''ok''}"
    by (simp add: speaker_utterances_def d_same_def)
  have c: "permute_dialogue det_rng 0 d_same ''A'' 1 = None"
    using permute_dialogue_unbounded_retry [OF rng_ok_det_rng a b, of 1 0] by simp
  have e: "shuffle_attempts det_rng (speaker_utterances ''A'' d_same) 0 20 0 = (None, 60)"
    by code_simp
  show ?thesis using rng_ok_det_rng a b c e by simp
qed

section \<open>The permutation loop and the rebuilt dialogue\<close>

lemma rebuild_full:
  "ptr + length (filter (\<lambda>turn. fst turn = spk) rest) \<le> length new \<Longrightarrow>
   rebuild spk new rest ptr (filter (\<lambda>(idx, turn). fst turn \<noteq> spk) (enumerate n rest)) acc
     = Inr (acc @ replace_utterances spk (drop ptr new) rest, [])"
proof (induction rest arbitrary: ptr n acc)
  case Nil
  show ?case by simp
next
  case (Cons t rest)
  obtain s u where t: "t = (s, u)" by (cases t)
  show ?case
  proof (cases "s = spk")
    case True
    have lt: "ptr < length new" using Cons.prems True t by simp
    have le: "(ptr + 1) + length (filter (\<lambda>turn. fst turn = spk) rest) \<le> length new"
      using Cons.prems True t by simp
    have dr: "drop ptr new = new ! ptr # drop (ptr + 1) new"
      using lt by (simp add: Cons_nth_drop_Suc)
    have "rebuild spk new (t # rest) ptr (filter (\<lambda>(idx, turn). fst turn \<noteq> spk) (enumerate n (t # rest))) acc
            = rebuild spk new rest (ptr + 1) (filter (\<lambda>(idx, turn). fst turn \<noteq> spk) (enumerate (Suc n) rest))
                (acc @ [(s, new ! ptr)])"
      using True lt t by simp
    also have "\<dots> = Inr ((acc @ [(s, new ! ptr)]) @ replace_utterances spk (drop (ptr + 1) new) rest, [])"
      by (rule Cons.IH[OF le])
    also have "\<dots> = Inr (acc @ replace_utterances spk (drop ptr new) (t # rest), [])"
      unfolding dr t using True by simp
    finally show ?thesis .
  next
    case False
    have le: "ptr + length (filter (\<lambda>turn. fst turn = spk) rest) \<le> length new"
      using Cons.prems False t by simp
    have "rebuild spk new (t # rest) ptr (filter (\<lambda>(idx, turn). fst turn \<noteq> spk) (enumerate n (t # rest))) acc
            = rebuild spk new rest ptr (filter (\<lambda>(idx, turn). fst turn \<noteq> spk) (enumerate (Suc n) rest))
                (acc @ [t])"
      using False t by simp
    also have "\<dots> = Inr ((acc @ [t]) @ replace_utterances spk (drop ptr new) rest, [])"
      by (rule Cons.IH[OF le])
    also have "\<dots> = Inr (acc @ replace_utterances spk (drop ptr new) (t # rest), [])"
      unfolding t using False by simp
    finally show ?thesis .
  qed
qed

lemma rebuild_empty_others:
  "\<exists>turn \<in> set rest. fst turn \<noteq> spk \<Longrightarrow> rebuild spk new rest ptr [] acc = Inl IndexError"
proof (induction rest arbitrary: ptr acc)
  case Nil
  then show ?case by simp
next
  case (Cons t rest)
  obtain s u where t: "t = (s, u)" by (cases t)
  show ?case
  proof (cases "s = spk")
    case True
    then have ex: "\<exists>turn \<in> set rest. fst turn \<noteq> spk" using Cons.prems t by auto
    show ?thesis
    proof (cases "ptr < length new")
      case True
      then show ?thesis using \<open>s = spk\<close> t Cons.IH[OF ex] by simp
    next
      case False
      then show ?thesis using \<open>s = spk\<close> t by simp
    qed
  next
    case False
    then show ?thesis using t by simp
  qed
qed

lemma other_turns_empty_iff:
  "other_turns spk d = [] \<longleftrightarrow> (\<forall>turn \<in> set d. fst turn = spk)"
proof -
  have "map snd (other_turns spk d) = filter (\<lambda>turn. fst turn \<noteq> spk) d"
    unfolding other_turns_def by (rule filter_enumerate_snd)
  then have "other_turns spk d = [] \<longleftrightarrow> filter (\<lambda>turn. fst turn \<noteq> spk) d = []"
    by (metis map_is_Nil_conv)
  then show ?thesis by (auto simp: filter_empty_conv)
qed



lemma differs_in_utterance_I:
  assumes "map fst d' = map fst d" and "d' \<noteq> d"
  shows "differs_in_utterance d d'"
proof -
  have len: "length d' = length d" using assms(1) by (metis length_map)
  have "\<exists>i < length d. d' ! i \<noteq> d ! i" using assms(2) len by (auto simp: list_eq_iff_nth_eq)
  then obtain i where i: "i < length d" and ne: "d' ! i \<noteq> d ! i" by blast
  have "fst (d' ! i) = fst (d ! i)"
    using assms(1) i len by (metis nth_map)
  then have "snd (d' ! i) \<noteq> snd (d ! i)" using ne by (auto simp: prod_eq_iff)
  then show ?thesis using assms(1) i by (auto simp: differs_in_utterance_def)
qed

lemma length_fold_update:
  "length (fold (\<lambda>(i, v) xs. xs[i := v]) ps xs) = length xs"
  by (induction ps arbitrary: xs) auto

lemma fold_update_other:
  "i \<notin> fst ` set ps \<Longrightarrow> fold (\<lambda>(i, v) xs. xs[i := v]) ps xs ! i = xs ! i"
  by (induction ps arbitrary: xs) (auto simp: nth_list_update)

lemma fold_update_nth:
  "distinct (map fst ps) \<Longrightarrow> (i, v) \<in> set ps \<Longrightarrow> i < length xs \<Longrightarrow>
   fold (\<lambda>(i, v) xs. xs[i := v]) ps xs ! i = v"
proof (induction ps arbitrary: xs)
  case Nil
  then show ?case by simp
next
  case (Cons p ps)
  obtain j w where p: "p = (j, w)" by (cases p)
  show ?case
  proof (cases "(i, v) = (j, w)")
    case True
    then have "i \<notin> fst ` set ps" using Cons.prems(1) p by auto
    then have "fold (\<lambda>(i, v) xs. xs[i := v]) ps (xs[i := v]) ! i = xs[i := v] ! i"
      by (rule fold_update_other)
    then show ?thesis using True p Cons.prems(3) by simp
  next
    case False
    then have a: "(i, v) \<in> set ps" using Cons.prems(2) p by auto
    have b: "distinct (map fst ps)" using Cons.prems(1) by simp
    have c: "i < length (xs[j := w])" using Cons.prems(3) by simp
    have "fold (\<lambda>(i, v) xs. xs[i := v]) ps (xs[j := w]) ! i = v" by (rule Cons.IH[OF b a c])
    then show ?thesis using p by simp
  qed
qed

lemma assign_shuffled_differs:
  assumes "distinct sub" and "length sh = length sub" and "\<forall>i \<in> set sub. i < length utts"
    and "sh \<noteq> map (\<lambda>i. utts ! i) sub"
  shows "assign_shuffled sub sh utts \<noteq> utts" and "length (assign_shuffled sub sh utts) = length utts"
proof -
  show "length (assign_shuffled sub sh utts) = length utts"
    by (simp add: assign_shuffled_def length_fold_update)
  have "\<exists>p < length sub. sh ! p \<noteq> map (\<lambda>i. utts ! i) sub ! p"
    using assms(2,4) by (auto simp: list_eq_iff_nth_eq)
  then obtain p where p: "p < length sub" and ne: "sh ! p \<noteq> utts ! (sub ! p)" by auto
  have mem: "(sub ! p, sh ! p) \<in> set (zip sub sh)"
    using p assms(2) by (auto simp: set_zip)
  have dist: "distinct (map fst (zip sub sh))" using assms(1,2) by simp
  have inb: "sub ! p < length utts" using assms(3) p by simp
  have "assign_shuffled sub sh utts ! (sub ! p) = sh ! p"
    unfolding assign_shuffled_def using dist mem inb by (rule fold_update_nth)
  then show "assign_shuffled sub sh utts \<noteq> utts" using ne by auto
qed

lemma permute_loop_copy:
  "length (speaker_indices spk d) < 2 \<Longrightarrow>
   permute_loop g d spk n perms others r = Some (Inr (perms @ replicate n d, r))"
proof (induction n arbitrary: perms)
  case 0
  show ?case by simp
next
  case (Suc n)
  have "permute_loop g d spk (Suc n) perms others r = permute_loop g d spk n (perms @ [d]) others r"
    using Suc.prems by (simp add: Let_def)
  also have "\<dots> = Some (Inr ((perms @ [d]) @ replicate n d, r))"
    by (rule Suc.IH[OF Suc.prems])
  finally show ?case by (simp add: replicate_app_Cons_same)
qed

lemma permute_iteration:
  assumes "rng_ok g" and "2 \<le> length (speaker_indices spk d)"
  shows "permute_loop g d spk (Suc n) perms others r = None
       \<or> (\<exists>new r3. length new = length (speaker_utterances spk d) \<and> new \<noteq> speaker_utterances spk d
             \<and> permute_loop g d spk (Suc n) perms others r =
                 (case rebuild spk new d 0 others [] of
                    Inl e \<Rightarrow> Some (Inl e)
                  | Inr (permuted, others') \<Rightarrow> permute_loop g d spk n (perms @ [permuted]) others' r3))"
proof -
  let ?idxs = "speaker_indices spk d"
  let ?utts = "speaker_utterances spk d"
  obtain k r1 where ri: "randint g r 2 (length ?idxs) = (k, r1)"
    by (cases "randint g r 2 (length ?idxs)") auto
  obtain sub r2 where sa: "sample_range g r1 (length ?idxs) k = (sub, r2)"
    by (cases "sample_range g r1 (length ?idxs) k") auto
  note sf = sample_facts[OF assms(1,2) ri sa]
  let ?ts = "map (\<lambda>i. ?utts ! i) sub"
  have nl: "\<not> length ?idxs < 2" using assms(2) by simp
  show ?thesis
  proof (cases "shuffle_until_different g ?ts ?ts r2")
    case None
    have "permute_loop g d spk (Suc n) perms others r = None"
      by (subst permute_loop.simps(2))
         (simp only: Let_def nl if_False ri sa prod.case None option.case)
    then show ?thesis by blast
  next
    case (Some y)
    obtain s r3 where y: "y = (s, r3)" by (cases y)
    have "fst y \<noteq> ?ts \<and> mset (fst y) = mset ?ts"
      using shuffle_until_different_Some[OF Some] assms(1) by simp
    then have ne: "s \<noteq> ?ts" and ms: "mset s = mset ?ts" using y by simp_all
    have ls: "length s = length sub" using mset_eq_length[OF ms] by simp
    have inb: "\<forall>i \<in> set sub. i < length ?utts"
      using sf(3) by (simp add: length_speaker_utterances)
    let ?new = "assign_shuffled sub s ?utts"
    have d1: "?new \<noteq> ?utts" and d2: "length ?new = length ?utts"
      using assign_shuffled_differs[OF sf(2) ls inb ne] by simp_all
    have "permute_loop g d spk (Suc n) perms others r =
            (case rebuild spk ?new d 0 others [] of
               Inl e \<Rightarrow> Some (Inl e)
             | Inr (permuted, others') \<Rightarrow> permute_loop g d spk n (perms @ [permuted]) others' r3)"
      by (subst permute_loop.simps(2))
         (simp only: Let_def nl if_False ri sa prod.case Some y option.case)
    then show ?thesis using d1 d2 by blast
  qed
qed

lemma rebuild_from_source:
  assumes "length new = length (speaker_utterances spk d)"
  shows "rebuild spk new d 0 (other_turns spk d) [] = Inr (replace_utterances spk new d, [])"
proof -
  have "0 + length (filter (\<lambda>turn. fst turn = spk) d) \<le> length new"
    using assms by (simp add: length_speaker_utterances length_speaker_indices)
  then have "rebuild spk new d 0 (filter (\<lambda>(idx, turn). fst turn \<noteq> spk) (enumerate 0 d)) []
               = Inr ([] @ replace_utterances spk (drop 0 new) d, [])"
    by (rule rebuild_full)
  then show ?thesis by (simp add: other_turns_def)
qed



lemma permute_loop_second_iteration_fails:
  assumes "rng_ok g" and "2 \<le> length (speaker_indices spk d)" and "other_turns spk d \<noteq> []"
  shows "permute_loop g d spk (Suc (Suc n)) perms (other_turns spk d) r = None
       \<or> permute_loop g d spk (Suc (Suc n)) perms (other_turns spk d) r = Some (Inl IndexError)"
proof -
  from permute_iteration[OF assms(1,2), of "Suc n" perms "other_turns spk d" r]
  show ?thesis
  proof
    assume "permute_loop g d spk (Suc (Suc n)) perms (other_turns spk d) r = None"
    then show ?thesis by simp
  next
    assume "\<exists>new r3. length new = length (speaker_utterances spk d) \<and> new \<noteq> speaker_utterances spk d
             \<and> permute_loop g d spk (Suc (Suc n)) perms (other_turns spk d) r =
                 (case rebuild spk new d 0 (other_turns spk d) [] of
                    Inl e \<Rightarrow> Some (Inl e)
                  | Inr (permuted, others') \<Rightarrow> permute_loop g d spk (Suc n) (perms @ [permuted]) others' r3)"
    then obtain new r3 where ln: "length new = length (speaker_utterances spk d)"
      and it: "permute_loop g d spk (Suc (Suc n)) perms (other_turns spk d) r =
                 (case rebuild spk new d 0 (other_turns spk d) [] of
                    Inl e \<Rightarrow> Some (Inl e)
                  | Inr (permuted, others') \<Rightarrow> permute_loop g d spk (Suc n) (perms @ [permuted]) others' r3)"
      by blast
    have rb: "rebuild spk new d 0 (other_turns spk d) [] = Inr (replace_utterances spk new d, [])"
      using ln by (rule rebuild_from_source)
    have first: "permute_loop g d spk (Suc (Suc n)) perms (other_turns spk d) r
                   = permute_loop g d spk (Suc n) (perms @ [replace_utterances spk new d]) [] r3"
      using it rb by simp
    have ex: "\<exists>turn \<in> set d. fst turn \<noteq> spk" using assms(3) by (simp add: other_turns_empty_iff)
    from permute_iteration[OF assms(1,2), of n "perms @ [replace_utterances spk new d]" "[]" r3]
    show ?thesis
    proof
      assume "permute_loop g d spk (Suc n) (perms @ [replace_utterances spk new d]) [] r3 = None"
      then show ?thesis using first by simp
    next
      assume "\<exists>new' r4. length new' = length (speaker_utterances spk d) \<and> new' \<noteq> speaker_utterances spk d
             \<and> permute_loop g d spk (Suc n) (perms @ [replace_utterances spk new d]) [] r3 =
                 (case rebuild spk new' d 0 [] [] of
                    Inl e \<Rightarrow> Some (Inl e)
                  | Inr (permuted, others') \<Rightarrow>
                      permute_loop g d spk n ((perms @ [replace_utterances spk new d]) @ [permuted]) others' r4)"
      then obtain new' r4 where
        it2: "permute_loop g d spk (Suc n) (perms @ [replace_utterances spk new d]) [] r3 =
                 (case rebuild spk new' d 0 [] [] of
                    Inl e \<Rightarrow> Some (Inl e)
                  | Inr (permuted, others') \<Rightarrow>
                      permute_loop g d spk n ((perms @ [replace_utterances spk new d]) @ [permuted]) others' r4)"
        by blast
      have "rebuild spk new' d 0 [] [] = Inl IndexError" using ex by (rule rebuild_empty_others)
      then show ?thesis using first it2 by simp
    qed
  qed
qed

lemma score_perms_labels:
  "score_perms mdl ps (t, p, m) = Inr (t', p', m') \<Longrightarrow>
   t' = t @ replicate (length ps) 0 \<and> length p' = length p + length ps"
proof (induction ps arbitrary: t p m)
  case Nil
  then show ?case by simp
next
  case (Cons x ps)
  obtain sc m1 where c: "compute_dialogue_pred mdl m x = Inr (sc, m1)"
    using Cons.prems by (cases "compute_dialogue_pred mdl m x") auto
  have "score_perms mdl ps (t @ [0], p @ [sc], m1) = Inr (t', p', m')"
    using Cons.prems c by simp
  then have "t' = (t @ [0]) @ replicate (length ps) 0 \<and> length p' = length (p @ [sc]) + length ps"
    by (rule Cons.IH)
  then show ?case by (simp add: replicate_app_Cons_same)
qed

lemma fold_update_speakers:
  "\<forall>(pos, idx) \<in> set ps. idx < length d \<longrightarrow> fst (d ! idx) = target \<Longrightarrow>
   map fst nd = map fst d \<Longrightarrow>
   map fst (fold (\<lambda>(pos, orig_idx) neg_dialogue. neg_dialogue[orig_idx := (target, f pos)]) ps nd) = map fst d"
proof (induction ps arbitrary: nd)
  case Nil
  then show ?case by simp
next
  case (Cons p ps)
  obtain pos idx where p: "p = (pos, idx)" by (cases p)
  have len: "length nd = length d" using Cons.prems(2) by (metis length_map)
  have "map fst (nd[idx := (target, f pos)]) = (map fst d)[idx := target]"
    using Cons.prems(2) by (simp add: map_update)
  also have "\<dots> = map fst d"
  proof (cases "idx < length d")
    case True
    then have "fst (d ! idx) = target" using Cons.prems(1) p by auto
    then have "(map fst d) ! idx = target" using True by simp
    then show ?thesis by (metis list_update_id)
  next
    case False
    then have "length (map fst d) \<le> idx" by simp
    then show ?thesis by (rule list_update_beyond)
  qed
  finally have step: "map fst (nd[idx := (target, f pos)]) = map fst d" .
  have rest: "\<forall>(pos, idx) \<in> set ps. idx < length d \<longrightarrow> fst (d ! idx) = target"
    using Cons.prems(1) by simp
  show ?case using Cons.IH[OF rest step] p by simp
qed

lemma substitute_speakers:
  assumes "indices = map fst (filter (\<lambda>(idx, (spk, u)). spk = target) (enumerate 0 d))"
  shows "map fst (substitute target indices sh d) = map fst d"
proof -
  have "\<forall>idx \<in> set indices. idx < length d \<longrightarrow> fst (d ! idx) = target"
    unfolding assms by (auto simp: in_set_enumerate_eq)
  then have "\<forall>(pos, idx) \<in> set (enumerate 0 indices). idx < length d \<longrightarrow> fst (d ! idx) = target"
    by (auto simp: in_set_enumerate_eq)
  then show ?thesis
    unfolding substitute_def by (rule fold_update_speakers) simp
qed

lemma test_experiment_copy:
  assumes "rng_ok g" and "3 \<le> length d"
    and "length (speaker_indices ''A'' d) < 2" and "length (speaker_indices ''B'' d) < 2"
  shows "test_experiment mdl g m r [d] n =
     (case compute_dialogue_pred mdl m d of
        Inl e \<Rightarrow> Some (Inl e)
      | Inr (score, m1) \<Rightarrow>
          (case score_perms mdl (replicate n d) ([1], [score], m1) of
             Inl e \<Rightarrow> Some (Inl e)
           | Inr (t, p, m2) \<Rightarrow> Some (Inr (t, p, m2, snd (choice g r [''A'', ''B''])))))"
proof (cases "compute_dialogue_pred mdl m d")
  case (Inl e)
  then show ?thesis using assms(2) by (simp add: test_experiment_def)
next
  case (Inr sm)
  obtain score m1 where sm: "sm = (score, m1)" by (cases sm)
  obtain chosen r1 where ch: "choice g r [''A'', ''B''] = (chosen, r1)"
    by (cases "choice g r [''A'', ''B'']") auto
  have "chosen \<in> set [''A'', ''B'']"
    using assms(1) _ ch by (rule choice_in_set) simp
  then have "length (speaker_indices chosen d) < 2" using assms(3,4) by auto
  then have pd: "permute_dialogue g r1 d chosen n = Some (Inr (replicate n d, r1))"
    unfolding permute_dialogue_def using permute_loop_copy[of chosen d g n "[]"] by simp
  have nl: "\<not> length d < 3" using assms(2) by simp
  show ?thesis
  proof (cases "score_perms mdl (replicate n d) ([1], [score], m1)")
    case (Inl e)
    show ?thesis
      unfolding test_experiment_def
      by (simp add: nl Inr sm ch pd Inl)
  next
    case (Inr res)
    obtain t p m2 where res: "res = (t, p, m2)" by (cases res)
    show ?thesis
      unfolding test_experiment_def
      by (simp add: nl \<open>compute_dialogue_pred mdl m d = Inr sm\<close> sm ch pd Inr res)
  qed
qed

lemma add_dialogue_result:
  "\<exists>r'. add_dialogue g (ds0, ls0, r) d = (ds0 @ [d], ls0 @ [1], r')
      \<or> (\<exists>neg. differs_in_utterance d neg
            \<and> add_dialogue g (ds0, ls0, r) d = (ds0 @ [d, neg], ls0 @ [1, 0], r'))"
proof (cases "speakers_of d = [] \<or> length (speakers_of d) < 2")
  case True
  then show ?thesis by (simp add: add_dialogue_def Let_def)
next
  case False
  note sp = False
  show ?thesis
  proof (cases "valid_speakers d = []")
    case True
    then show ?thesis using sp by (simp add: add_dialogue_def Let_def)
  next
    case False
    note vs = False
    obtain target r1 where ch: "choice g r (valid_speakers d) = (target, r1)"
      by (cases "choice g r (valid_speakers d)") auto
    define indices where "indices = map fst (filter (\<lambda>(idx, (spk, u)). spk = target) (enumerate 0 d))"
    define utts where "utts = map (\<lambda>idx. snd (d ! idx)) indices"
    obtain res r2 where sa: "shuffle_attempts g utts 0 20 r1 = (res, r2)"
      by (cases "shuffle_attempts g utts 0 20 r1") auto
    show ?thesis
    proof (cases res)
      case None
      have "add_dialogue g (ds0, ls0, r) d = (ds0 @ [d], ls0 @ [1], r2)"
        using sp vs ch sa None unfolding add_dialogue_def Let_def indices_def utts_def
        by simp
      then show ?thesis by blast
    next
      case (Some sh)
      show ?thesis
      proof (cases "substitute target indices sh d \<noteq> d")
        case True
        have "add_dialogue g (ds0, ls0, r) d = (ds0 @ [d, substitute target indices sh d], ls0 @ [1, 0], r2)"
          using sp vs ch sa Some True unfolding add_dialogue_def Let_def indices_def utts_def
          by simp
        moreover have "differs_in_utterance d (substitute target indices sh d)"
          using substitute_speakers[OF indices_def] True by (rule differs_in_utterance_I)
        ultimately show ?thesis by blast
      next
        case False
        have "add_dialogue g (ds0, ls0, r) d = (ds0 @ [d], ls0 @ [1], r2)"
          using sp vs ch sa Some False unfolding add_dialogue_def Let_def indices_def utts_def
          by simp
        then show ?thesis by blast
      qed
    qed
  qed
qed

section \<open>Properties of the synthetic negatives\<close>











section \<open>Properties of the evaluation protocol\<close>

text \<open>
  Claim C10. The evaluation draws the speaker to permute from the constant list of the
  two labels A and B. Whenever the drawn label occurs fewer than two times in the
  dialogue, \<^verbatim>\<open>permute_dialogue\<close> returns \<open>num_permutations\<close> exact copies of the original,
  and the evaluation scores each copy and records it with true label 0. The claim also
  says that \<^verbatim>\<open>permute_dialogue\<close> always returns \<open>num_permutations\<close> dialogues; the code
  does not: when the label occurs at least twice, the dialogue has a turn of another
  speaker and \<open>num_permutations \<ge> 2\<close>, the first iteration empties the shared list of the
  other turns, and the call either raises \<^verbatim>\<open>IndexError\<close> in the second iteration or
  never leaves a shuffle loop.
\<close>

theorem evaluation_permutations:
  "(rng_ok g \<longrightarrow> fst (choice g r [''A'', ''B'']) \<in> {''A'', ''B''})
   \<and> (length (speaker_indices spk d) < 2 \<longrightarrow>
        permute_dialogue g r d spk n = Some (Inr (replicate n d, r)))
   \<and> (rng_ok g \<and> 3 \<le> length d
        \<and> length (speaker_indices ''A'' d) < 2 \<and> length (speaker_indices ''B'' d) < 2
        \<and> test_experiment mdl g m r [d] n = Some (Inr (true_l, pred_l, m', r')) \<longrightarrow>
        true_l = 1 # replicate n 0
        \<and> (\<exists>score m1. compute_dialogue_pred mdl m d = Inr (score, m1)
              \<and> score_perms mdl (replicate n d) ([1], [score], m1) = Inr (true_l, pred_l, m')))
   \<and> (rng_ok g \<and> 2 \<le> length (speaker_indices spk d) \<and> other_turns spk d \<noteq> [] \<and> 2 \<le> n \<longrightarrow>
        permute_dialogue g r d spk n = None
        \<or> permute_dialogue g r d spk n = Some (Inl IndexError))"
proof (intro conjI impI)
  assume ok: "rng_ok g"
  obtain chosen r1 where ch: "choice g r [''A'', ''B''] = (chosen, r1)"
    by (cases "choice g r [''A'', ''B'']") auto
  have "chosen \<in> set [''A'', ''B'']" using ok _ ch by (rule choice_in_set) simp
  then show "fst (choice g r [''A'', ''B'']) \<in> {''A'', ''B''}" using ch by simp
next
  assume "length (speaker_indices spk d) < 2"
  then show "permute_dialogue g r d spk n = Some (Inr (replicate n d, r))"
    unfolding permute_dialogue_def using permute_loop_copy[of spk d g n "[]"] by simp
next
  assume a: "rng_ok g \<and> 3 \<le> length d
        \<and> length (speaker_indices ''A'' d) < 2 \<and> length (speaker_indices ''B'' d) < 2
        \<and> test_experiment mdl g m r [d] n = Some (Inr (true_l, pred_l, m', r'))"
  then have te: "test_experiment mdl g m r [d] n = Some (Inr (true_l, pred_l, m', r'))" by simp
  have eq: "test_experiment mdl g m r [d] n =
     (case compute_dialogue_pred mdl m d of
        Inl e \<Rightarrow> Some (Inl e)
      | Inr (score, m1) \<Rightarrow>
          (case score_perms mdl (replicate n d) ([1], [score], m1) of
             Inl e \<Rightarrow> Some (Inl e)
           | Inr (t, p, m2) \<Rightarrow> Some (Inr (t, p, m2, snd (choice g r [''A'', ''B''])))))"
    using a by (intro test_experiment_copy) simp_all
  obtain score m1 where c: "compute_dialogue_pred mdl m d = Inr (score, m1)"
    using te eq by (cases "compute_dialogue_pred mdl m d") auto
  have sp: "score_perms mdl (replicate n d) ([1], [score], m1) = Inr (true_l, pred_l, m')"
    using te eq c by (cases "score_perms mdl (replicate n d) ([1], [score], m1)") auto
  have "true_l = [1] @ replicate (length (replicate n d)) 0"
    using score_perms_labels[OF sp] by simp
  then have lbl: "true_l = 1 # replicate n 0" by simp
  show "true_l = 1 # replicate n 0" by (rule lbl)
  show "\<exists>score m1. compute_dialogue_pred mdl m d = Inr (score, m1)
              \<and> score_perms mdl (replicate n d) ([1], [score], m1) = Inr (true_l, pred_l, m')"
    using c sp by blast
next
  assume a: "rng_ok g \<and> 2 \<le> length (speaker_indices spk d) \<and> other_turns spk d \<noteq> [] \<and> 2 \<le> n"
  then obtain k where n: "n = Suc (Suc k)" by (cases n; cases "n - 1") auto
  show "permute_dialogue g r d spk n = None \<or> permute_dialogue g r d spk n = Some (Inl IndexError)"
    unfolding permute_dialogue_def n
    using a by (intro permute_loop_second_iteration_fails) simp_all
qed

theorem evaluation_permutations_witness:
  "rng_ok det_rng
   \<and> fst (choice det_rng 0 [''A'', ''B'']) \<in> {''A'', ''B''}
   \<and> 3 \<le> length d4 \<and> length (speaker_indices ''A'' d4) < 2 \<and> length (speaker_indices ''B'' d4) < 2
   \<and> test_experiment toy_model det_rng 0 0 [d4] 3 = Some (Inr ([1, 0, 0, 0], [1, 1, 1, 1], 20, 1))
   \<and> score_perms toy_model (replicate 3 d4) ([1], [1], 5) = Inr ([1, 0, 0, 0], [1, 1, 1, 1], 20)
   \<and> permute_dialogue det_rng 1 d4 ''A'' 3 = Some (Inr (replicate 3 d4, 1))
   \<and> 2 \<le> length (speaker_indices ''A'' d3) \<and> other_turns ''A'' d3 \<noteq> []
   \<and> permute_dialogue det_rng 0 d3 ''A'' 1
        = Some (Inr ([[(''A'', ''hi''), (''B'', ''hello''), (''A'', ''how are you'')]], 3))
   \<and> permute_dialogue det_rng 0 d3 ''A'' 2 = Some (Inl IndexError)"
proof -
  have l3: "3 \<le> length d4" by code_simp
  have fa: "length (speaker_indices ''A'' d4) < 2" by code_simp
  have fb: "length (speaker_indices ''B'' d4) < 2" by code_simp
  have te: "test_experiment toy_model det_rng 0 0 [d4] 3 = Some (Inr ([1, 0, 0, 0], [1, 1, 1, 1], 20, 1))"
    by code_simp
  have cd: "compute_dialogue_pred toy_model 0 d4 = Inr (1, 5)" by code_simp
  have two: "2 \<le> length (speaker_indices ''A'' d3)" by code_simp
  have ot: "other_turns ''A'' d3 \<noteq> []" by code_simp
  have one: "permute_dialogue det_rng 0 d3 ''A'' 1
        = Some (Inr ([[(''A'', ''hi''), (''B'', ''hello''), (''A'', ''how are you'')]], 3))"
    by code_simp
  have nn: "permute_dialogue det_rng 0 d3 ''A'' 2 \<noteq> None" by code_simp
  note T = evaluation_permutations [where g = det_rng and mdl = toy_model]
  have c1: "fst (choice det_rng 0 [''A'', ''B'']) \<in> {''A'', ''B''}"
    using T [where r = 0] rng_ok_det_rng by blast
  have c2: "permute_dialogue det_rng 1 d4 ''A'' 3 = Some (Inr (replicate 3 d4, 1))"
    using T [where r = 1 and spk = "''A''" and d = d4 and n = 3] fa by blast
  have c3: "\<exists>score m1. compute_dialogue_pred toy_model 0 d4 = Inr (score, m1)
              \<and> score_perms toy_model (replicate 3 d4) ([1], [score], m1) = Inr ([1, 0, 0, 0], [1, 1, 1, 1], 20)"
    using T [where r = 0 and d = d4 and n = 3 and m = 0 and true_l = "[1, 0, 0, 0]" and pred_l = "[1, 1, 1, 1]"
               and m' = 20 and r' = 1]
      rng_ok_det_rng l3 fa fb te by blast
  then have c3': "score_perms toy_model (replicate 3 d4) ([1], [1], 5) = Inr ([1, 0, 0, 0], [1, 1, 1, 1], 20)"
    using cd by simp
  have c4: "permute_dialogue det_rng 0 d3 ''A'' 2 = Some (Inl IndexError)"
    using T [where r = 0 and spk = "''A''" and d = d3 and n = 2] rng_ok_det_rng two ot nn by simp
  show ?thesis using rng_ok_det_rng c1 l3 fa fb te c3' c2 two ot one c4 by simp
qed

section \<open>Properties of the corpus loaders and the dataset constructor\<close>

lemma load_lines_ht_append:
  "load_lines_ht lib mx file (xs @ ys) st =
     (case load_lines_ht lib mx file xs st of Inl e \<Rightarrow> Inl e | Inr st' \<Rightarrow> load_lines_ht lib mx file ys st')"
proof (induction xs arbitrary: st)
  case Nil
  show ?case by simp
next
  case (Cons x xs)
  obtain a p where st: "st = (a, p)" by (cases st)
  show ?case unfolding st
    by (simp add: Cons.IH Let_def split: option.split sum.split)
qed

lemma load_lines_ht_printed:
  "(load_lines_ht lib mx file xs (a, p) = Inl e \<longrightarrow> load_lines_ht lib mx file xs (a, p2) = Inl e)
   \<and> (load_lines_ht lib mx file xs (a, p) = Inr (a', p') \<longrightarrow>
        (\<exists>q. p' = p @ q \<and> load_lines_ht lib mx file xs (a, p2) = Inr (a', p2 @ q)))"
proof (induction xs arbitrary: a p p2)
  case Nil
  show ?case by simp
next
  case (Cons x xs)
  show ?case
  proof (cases "strip lib x = []")
    case True
    then show ?thesis using Cons.IH[of a p p2] by simp
  next
    case False
    note ne = False
    show ?thesis
    proof (cases "loads lib (strip lib x)")
      case None
      have "load_lines_ht lib mx file (x # xs) (a, p) = load_lines_ht lib mx file xs (a, p @ [warning file])"
        using ne None by simp
      moreover have "load_lines_ht lib mx file (x # xs) (a, p2) = load_lines_ht lib mx file xs (a, p2 @ [warning file])"
        using ne None by simp
      ultimately show ?thesis using Cons.IH[of a "p @ [warning file]" "p2 @ [warning file]"] by auto
    next
      case (Some obj)
      show ?thesis
      proof (cases "extract_dialogue obj")
        case (Inl err)
        then show ?thesis using ne Some by simp
      next
        case (Inr dl)
        show ?thesis
        proof (cases "2 \<le> length dl")
          case True
          then show ?thesis using ne Some Inr Cons.IH[of "a @ [py_prefix dl mx]" p p2] by simp
        next
          case False
          then show ?thesis using ne Some Inr Cons.IH[of a p p2] by simp
        qed
      qed
    qed
  qed
qed

lemma load_lines_ht_skip:
  assumes "strip lib l \<noteq> []" and "loads lib (strip lib l) = None"
  shows "(load_lines_ht lib mx file (pre @ post) st = Inl e \<longrightarrow>
            load_lines_ht lib mx file (pre @ l # post) st = Inl e)
       \<and> (load_lines_ht lib mx file (pre @ post) st = Inr (a', p') \<longrightarrow>
            (\<exists>p q. p' = p @ q \<and> load_lines_ht lib mx file (pre @ l # post) st = Inr (a', p @ warning file # q)))"
proof (cases "load_lines_ht lib mx file pre st")
  case (Inl err)
  then show ?thesis by (simp add: load_lines_ht_append)
next
  case (Inr st1)
  obtain a1 p1 where st1: "st1 = (a1, p1)" by (cases st1)
  have A: "load_lines_ht lib mx file (pre @ post) st = load_lines_ht lib mx file post (a1, p1)"
    using Inr st1 by (simp add: load_lines_ht_append)
  have B: "load_lines_ht lib mx file (pre @ l # post) st = load_lines_ht lib mx file post (a1, p1 @ [warning file])"
    using Inr st1 assms by (simp add: load_lines_ht_append)
  show ?thesis
    unfolding A B
    using load_lines_ht_printed[of lib mx "file" post a1 p1 e "p1 @ [warning file]" a' p'] by auto
qed

lemma load_lines_lcd_append:
  "load_lines_lcd lib fname (xs @ ys) st =
     (case load_lines_lcd lib fname xs st of Inl e \<Rightarrow> Inl e | Inr st' \<Rightarrow> load_lines_lcd lib fname ys st')"
proof (induction xs arbitrary: st)
  case Nil
  show ?case by simp
next
  case (Cons x xs)
  obtain a p where st: "st = (a, p)" by (cases st)
  show ?case unfolding st
    by (simp add: Cons.IH split: option.split sum.split)
qed

lemma load_lines_lcd_printed:
  "(load_lines_lcd lib fname xs (a, p) = Inl e \<longrightarrow> load_lines_lcd lib fname xs (a, p2) = Inl e)
   \<and> (load_lines_lcd lib fname xs (a, p) = Inr (a', p') \<longrightarrow>
        (\<exists>q. p' = p @ q \<and> load_lines_lcd lib fname xs (a, p2) = Inr (a', p2 @ q)))"
proof (induction xs arbitrary: a p p2)
  case Nil
  show ?case by simp
next
  case (Cons x xs)
  show ?case
  proof (cases "loads lib x")
    case None
    have "load_lines_lcd lib fname (x # xs) (a, p) = load_lines_lcd lib fname xs (a, p @ [warning fname])"
      using None by simp
    moreover have "load_lines_lcd lib fname (x # xs) (a, p2) = load_lines_lcd lib fname xs (a, p2 @ [warning fname])"
      using None by simp
    ultimately show ?thesis using Cons.IH[of a "p @ [warning fname]" "p2 @ [warning fname]"] by auto
  next
    case (Some obj)
    show ?thesis
    proof (cases "extract_dialogue obj")
      case (Inl err)
      then show ?thesis using Some by simp
    next
      case (Inr dl)
      show ?thesis
      proof (cases "2 \<le> length dl")
        case True
        then show ?thesis using Some Inr Cons.IH[of "a @ [dl]" p p2] by simp
      next
        case False
        then show ?thesis using Some Inr Cons.IH[of a p p2] by simp
      qed
    qed
  qed
qed

lemma load_lines_lcd_skip:
  assumes "loads lib l = None"
  shows "(load_lines_lcd lib fname (pre @ post) st = Inl e \<longrightarrow>
            load_lines_lcd lib fname (pre @ l # post) st = Inl e)
       \<and> (load_lines_lcd lib fname (pre @ post) st = Inr (a', p') \<longrightarrow>
            (\<exists>p q. p' = p @ q \<and> load_lines_lcd lib fname (pre @ l # post) st = Inr (a', p @ warning fname # q)))"
proof (cases "load_lines_lcd lib fname pre st")
  case (Inl err)
  then show ?thesis by (simp add: load_lines_lcd_append)
next
  case (Inr st1)
  obtain a1 p1 where st1: "st1 = (a1, p1)" by (cases st1)
  have A: "load_lines_lcd lib fname (pre @ post) st = load_lines_lcd lib fname post (a1, p1)"
    using Inr st1 by (simp add: load_lines_lcd_append)
  have B: "load_lines_lcd lib fname (pre @ l # post) st = load_lines_lcd lib fname post (a1, p1 @ [warning fname])"
    using Inr st1 assms by (simp add: load_lines_lcd_append)
  show ?thesis
    unfolding A B
    using load_lines_lcd_printed[of lib fname post a1 p1 e "p1 @ [warning fname]" a' p'] by auto
qed

lemma add_dialogue_grows:
  "length (fst st) < length (fst (add_dialogue g st d))"
proof -
  obtain ds0 ls0 r where st: "st = (ds0, ls0, r)" by (cases st) auto
  show ?thesis using add_dialogue_result[of g ds0 ls0 r d] unfolding st by auto
qed

lemma fold_add_dialogue_grows:
  "length (fst st) + length xs \<le> length (fst (fold (\<lambda>d st. add_dialogue g st d) xs st))"
proof (induction xs arbitrary: st)
  case Nil
  show ?case by simp
next
  case (Cons x xs)
  have "length (fst (add_dialogue g st x)) + length xs
          \<le> length (fst (fold (\<lambda>d st. add_dialogue g st d) xs (add_dialogue g st x)))"
    by (rule Cons.IH)
  then show ?case using add_dialogue_grows[of st g x] by simp
qed

lemma line_loops_skip:
  "(load_files_ht lib mx folder ([], []) = Inr ([], printed) \<longrightarrow>
       dataset_init lib g folder mx sd = Inl ValueError)
   \<and> (dataset_init lib g folder mx sd = Inr (ds, printed') \<longrightarrow> self_dialogues ds \<noteq> [])
   \<and> (strip lib l \<noteq> [] \<and> loads lib (strip lib l) = None \<longrightarrow>
        (load_lines_ht lib mx fname (pre @ post) st = Inl e \<longrightarrow>
           load_lines_ht lib mx fname (pre @ l # post) st = Inl e)
        \<and> (load_lines_ht lib mx fname (pre @ post) st = Inr (a', p') \<longrightarrow>
             (\<exists>p q. p' = p @ q
                \<and> load_lines_ht lib mx fname (pre @ l # post) st = Inr (a', p @ warning fname # q))))
   \<and> (loads lib l = None \<longrightarrow>
        (load_lines_lcd lib fname (pre @ post) st = Inl e \<longrightarrow>
           load_lines_lcd lib fname (pre @ l # post) st = Inl e)
        \<and> (load_lines_lcd lib fname (pre @ post) st = Inr (a', p') \<longrightarrow>
             (\<exists>p q. p' = p @ q
                \<and> load_lines_lcd lib fname (pre @ l # post) st = Inr (a', p @ warning fname # q))))"
proof (intro conjI)
  show "load_files_ht lib mx folder ([], []) = Inr ([], printed) \<longrightarrow>
          dataset_init lib g folder mx sd = Inl ValueError"
    by (simp add: dataset_init_def)
next
  show "dataset_init lib g folder mx sd = Inr (ds, printed') \<longrightarrow> self_dialogues ds \<noteq> []"
  proof
    assume a: "dataset_init lib g folder mx sd = Inr (ds, printed')"
    obtain alld pr where ld: "load_files_ht lib mx folder ([], []) = Inr (alld, pr)"
      using a by (cases "load_files_ht lib mx folder ([], [])") (auto simp: dataset_init_def Let_def)
    have ne: "alld \<noteq> []"
      using a ld by (cases "alld = []") (simp_all add: dataset_init_def Let_def)
    obtain dsl ls r where f: "fold (\<lambda>d st. add_dialogue g st d) alld ([], [], seed g sd) = (dsl, ls, r)"
      by (cases "fold (\<lambda>d st. add_dialogue g st d) alld ([], [], seed g sd)") auto
    have "self_dialogues ds = dsl" using a ld ne f by (simp add: dataset_init_def Let_def) auto
    moreover have "length alld \<le> length dsl"
      using fold_add_dialogue_grows[of "([], [], seed g sd)" alld g] f by simp
    ultimately show "self_dialogues ds \<noteq> []" using ne by auto
  qed
next
  show "strip lib l \<noteq> [] \<and> loads lib (strip lib l) = None \<longrightarrow>
        (load_lines_ht lib mx fname (pre @ post) st = Inl e \<longrightarrow>
           load_lines_ht lib mx fname (pre @ l # post) st = Inl e)
        \<and> (load_lines_ht lib mx fname (pre @ post) st = Inr (a', p') \<longrightarrow>
             (\<exists>p q. p' = p @ q
                \<and> load_lines_ht lib mx fname (pre @ l # post) st = Inr (a', p @ warning fname # q)))"
    using load_lines_ht_skip[of lib l mx fname pre post st e a' p'] by blast
next
  show "loads lib l = None \<longrightarrow>
        (load_lines_lcd lib fname (pre @ post) st = Inl e \<longrightarrow>
           load_lines_lcd lib fname (pre @ l # post) st = Inl e)
        \<and> (load_lines_lcd lib fname (pre @ post) st = Inr (a', p') \<longrightarrow>
             (\<exists>p q. p' = p @ q
                \<and> load_lines_lcd lib fname (pre @ l # post) st = Inr (a', p @ warning fname # q)))"
    using load_lines_lcd_skip[of lib l fname pre post st e a' p'] by blast
qed

lemma load_lines_lcd_spec:
  "\<forall>l \<in> set lines. \<not> line_raises lib l \<Longrightarrow>
   load_lines_lcd lib fname lines (a, p)
     = Inr (a @ kept_dialogues_spec lib lines, p @ line_warnings_spec lib fname lines)"
proof (induction lines arbitrary: a p)
  case Nil
  show ?case by (simp add: kept_dialogues_spec_def line_warnings_spec_def List.map_filter_simps)
next
  case (Cons x xs)
  have rest: "\<forall>l \<in> set xs. \<not> line_raises lib l" using Cons.prems by simp
  have nr: "\<not> line_raises lib x" using Cons.prems by simp
  show ?case
  proof (cases "loads lib x")
    case None
    have "load_lines_lcd lib fname (x # xs) (a, p) = load_lines_lcd lib fname xs (a, p @ [warning fname])"
      using None by simp
    also have "\<dots> = Inr (a @ kept_dialogues_spec lib xs, (p @ [warning fname]) @ line_warnings_spec lib fname xs)"
      by (rule Cons.IH[OF rest])
    also have "\<dots> = Inr (a @ kept_dialogues_spec lib (x # xs), p @ line_warnings_spec lib fname (x # xs))"
      using None by (simp add: kept_dialogues_spec_def line_warnings_spec_def List.map_filter_simps line_dialogue_def)
    finally show ?thesis .
  next
    case (Some obj)
    then obtain dl where ex: "extract_dialogue obj = Inr dl"
      using nr by (cases "extract_dialogue obj") (auto simp: line_raises_def)
    show ?thesis
    proof (cases "2 \<le> length dl")
      case True
      have "load_lines_lcd lib fname (x # xs) (a, p) = load_lines_lcd lib fname xs (a @ [dl], p)"
        using Some ex True by simp
      also have "\<dots> = Inr ((a @ [dl]) @ kept_dialogues_spec lib xs, p @ line_warnings_spec lib fname xs)"
        by (rule Cons.IH[OF rest])
      also have "\<dots> = Inr (a @ kept_dialogues_spec lib (x # xs), p @ line_warnings_spec lib fname (x # xs))"
        using Some ex True
        by (simp add: kept_dialogues_spec_def line_warnings_spec_def List.map_filter_simps line_dialogue_def)
      finally show ?thesis .
    next
      case False
      have "load_lines_lcd lib fname (x # xs) (a, p) = load_lines_lcd lib fname xs (a, p)"
        using Some ex False by simp
      also have "\<dots> = Inr (a @ kept_dialogues_spec lib xs, p @ line_warnings_spec lib fname xs)"
        by (rule Cons.IH[OF rest])
      also have "\<dots> = Inr (a @ kept_dialogues_spec lib (x # xs), p @ line_warnings_spec lib fname (x # xs))"
        using Some ex False
        by (simp add: kept_dialogues_spec_def line_warnings_spec_def List.map_filter_simps line_dialogue_def)
      finally show ?thesis .
    qed
  qed
qed

lemma load_folder_lcd_spec:
  "\<forall>(fname, lines) \<in> set (jsonl_files folder). \<forall>l \<in> set lines. \<not> line_raises lib l \<Longrightarrow>
   load_folder_lcd lib folder (a, p)
     = Inr (a @ lcd_dialogues_spec lib folder, p @ lcd_warnings_spec lib folder)"
proof (induction folder arbitrary: a p)
  case Nil
  show ?case by (simp add: lcd_dialogues_spec_def lcd_warnings_spec_def jsonl_files_def)
next
  case (Cons f fs)
  obtain fname lines where f: "f = (fname, lines)" by (cases f)
  have rest: "\<forall>(fname, lines) \<in> set (jsonl_files fs). \<forall>l \<in> set lines. \<not> line_raises lib l"
    using Cons.prems by (auto simp: jsonl_files_def)
  show ?case
  proof (cases "endswith fname ''.jsonl''")
    case True
    then have "\<forall>l \<in> set lines. \<not> line_raises lib l"
      using Cons.prems f by (auto simp: jsonl_files_def)
    then have ll: "load_lines_lcd lib fname lines (a, p)
                 = Inr (a @ kept_dialogues_spec lib lines, p @ line_warnings_spec lib fname lines)"
      by (rule load_lines_lcd_spec)
    have "load_folder_lcd lib (f # fs) (a, p)
            = load_folder_lcd lib fs (a @ kept_dialogues_spec lib lines, p @ line_warnings_spec lib fname lines)"
      using True f ll by simp
    also have "\<dots> = Inr ((a @ kept_dialogues_spec lib lines) @ lcd_dialogues_spec lib fs,
                        (p @ line_warnings_spec lib fname lines) @ lcd_warnings_spec lib fs)"
      by (rule Cons.IH[OF rest])
    also have "\<dots> = Inr (a @ lcd_dialogues_spec lib (f # fs), p @ lcd_warnings_spec lib (f # fs))"
      using True f by (simp add: lcd_dialogues_spec_def lcd_warnings_spec_def jsonl_files_def)
    finally show ?thesis .
  next
    case False
    have "load_folder_lcd lib (f # fs) (a, p) = load_folder_lcd lib fs (a, p)"
      using False f by simp
    also have "\<dots> = Inr (a @ lcd_dialogues_spec lib fs, p @ lcd_warnings_spec lib fs)"
      by (rule Cons.IH[OF rest])
    also have "\<dots> = Inr (a @ lcd_dialogues_spec lib (f # fs), p @ lcd_warnings_spec lib (f # fs))"
      using False f by (simp add: lcd_dialogues_spec_def lcd_warnings_spec_def jsonl_files_def)
    finally show ?thesis .
  qed
qed

lemma load_lines_ht_spec:
  "\<forall>l \<in> set (nonblank lib lines). \<not> line_raises lib l \<Longrightarrow>
   load_lines_ht lib mx fname lines (a, p)
     = Inr (a @ map (\<lambda>d. py_prefix d mx) (kept_dialogues_spec lib (nonblank lib lines)),
            p @ line_warnings_spec lib fname (nonblank lib lines))"
proof (induction lines arbitrary: a p)
  case Nil
  show ?case by (simp add: kept_dialogues_spec_def line_warnings_spec_def List.map_filter_simps nonblank_def)
next
  case (Cons x xs)
  show ?case
  proof (cases "strip lib x = []")
    case True
    then have nb: "nonblank lib (x # xs) = nonblank lib xs" by (simp add: nonblank_def)
    have rest: "\<forall>l \<in> set (nonblank lib xs). \<not> line_raises lib l" using Cons.prems nb by simp
    have "load_lines_ht lib mx fname (x # xs) (a, p) = load_lines_ht lib mx fname xs (a, p)"
      using True by simp
    then show ?thesis unfolding nb using Cons.IH[OF rest] by simp
  next
    case False
    then have nb: "nonblank lib (x # xs) = strip lib x # nonblank lib xs" by (simp add: nonblank_def)
    have rest: "\<forall>l \<in> set (nonblank lib xs). \<not> line_raises lib l" using Cons.prems nb by simp
    have nr: "\<not> line_raises lib (strip lib x)" using Cons.prems nb by simp
    show ?thesis
    proof (cases "loads lib (strip lib x)")
      case None
      have "load_lines_ht lib mx fname (x # xs) (a, p) = load_lines_ht lib mx fname xs (a, p @ [warning fname])"
        using False None by simp
      also have "\<dots> = Inr (a @ map (\<lambda>d. py_prefix d mx) (kept_dialogues_spec lib (nonblank lib xs)),
                           (p @ [warning fname]) @ line_warnings_spec lib fname (nonblank lib xs))"
        by (rule Cons.IH[OF rest])
      also have "\<dots> = Inr (a @ map (\<lambda>d. py_prefix d mx) (kept_dialogues_spec lib (nonblank lib (x # xs))),
                           p @ line_warnings_spec lib fname (nonblank lib (x # xs)))"
        unfolding nb using None
        by (simp add: kept_dialogues_spec_def line_warnings_spec_def List.map_filter_simps line_dialogue_def)
      finally show ?thesis .
    next
      case (Some obj)
      then obtain dl where ex: "extract_dialogue obj = Inr dl"
        using nr by (cases "extract_dialogue obj") (auto simp: line_raises_def)
      show ?thesis
      proof (cases "2 \<le> length dl")
        case True
        have "load_lines_ht lib mx fname (x # xs) (a, p)
                = load_lines_ht lib mx fname xs (a @ [py_prefix dl mx], p)"
          using False Some ex True by simp
        also have "\<dots> = Inr ((a @ [py_prefix dl mx]) @ map (\<lambda>d. py_prefix d mx) (kept_dialogues_spec lib (nonblank lib xs)),
                           p @ line_warnings_spec lib fname (nonblank lib xs))"
          by (rule Cons.IH[OF rest])
        also have "\<dots> = Inr (a @ map (\<lambda>d. py_prefix d mx) (kept_dialogues_spec lib (nonblank lib (x # xs))),
                           p @ line_warnings_spec lib fname (nonblank lib (x # xs)))"
          unfolding nb using Some ex True
          by (simp add: kept_dialogues_spec_def line_warnings_spec_def List.map_filter_simps line_dialogue_def)
        finally show ?thesis .
      next
        case False
        note short = False
        have "load_lines_ht lib mx fname (x # xs) (a, p) = load_lines_ht lib mx fname xs (a, p)"
          using \<open>strip lib x \<noteq> []\<close> Some ex short by simp
        also have "\<dots> = Inr (a @ map (\<lambda>d. py_prefix d mx) (kept_dialogues_spec lib (nonblank lib xs)),
                           p @ line_warnings_spec lib fname (nonblank lib xs))"
          by (rule Cons.IH[OF rest])
        also have "\<dots> = Inr (a @ map (\<lambda>d. py_prefix d mx) (kept_dialogues_spec lib (nonblank lib (x # xs))),
                           p @ line_warnings_spec lib fname (nonblank lib (x # xs)))"
          unfolding nb using Some ex short
          by (simp add: kept_dialogues_spec_def line_warnings_spec_def List.map_filter_simps line_dialogue_def)
        finally show ?thesis .
      qed
    qed
  qed
qed

lemma load_files_ht_spec:
  "\<forall>(fname, lines) \<in> set folder. \<forall>l \<in> set (nonblank lib lines). \<not> line_raises lib l \<Longrightarrow>
   load_files_ht lib mx folder (a, p)
     = Inr (a @ ht_dialogues_spec lib mx folder, p @ ht_warnings_spec lib folder)"
proof (induction folder arbitrary: a p)
  case Nil
  show ?case by (simp add: ht_dialogues_spec_def ht_warnings_spec_def)
next
  case (Cons f fs)
  obtain fname lines where f: "f = (fname, lines)" by (cases f)
  have rest: "\<forall>(fname, lines) \<in> set fs. \<forall>l \<in> set (nonblank lib lines). \<not> line_raises lib l"
    using Cons.prems by simp
  have "\<forall>l \<in> set (nonblank lib lines). \<not> line_raises lib l" using Cons.prems f by simp
  then have ll: "load_lines_ht lib mx fname lines (a, p)
     = Inr (a @ map (\<lambda>d. py_prefix d mx) (kept_dialogues_spec lib (nonblank lib lines)),
            p @ line_warnings_spec lib fname (nonblank lib lines))"
    by (rule load_lines_ht_spec)
  have "load_files_ht lib mx (f # fs) (a, p)
          = load_files_ht lib mx fs (a @ map (\<lambda>d. py_prefix d mx) (kept_dialogues_spec lib (nonblank lib lines)),
                                     p @ line_warnings_spec lib fname (nonblank lib lines))"
    using f ll by simp
  also have "\<dots> = Inr ((a @ map (\<lambda>d. py_prefix d mx) (kept_dialogues_spec lib (nonblank lib lines)))
                         @ ht_dialogues_spec lib mx fs,
                       (p @ line_warnings_spec lib fname (nonblank lib lines)) @ ht_warnings_spec lib fs)"
    by (rule Cons.IH[OF rest])
  also have "\<dots> = Inr (a @ ht_dialogues_spec lib mx (f # fs), p @ ht_warnings_spec lib (f # fs))"
    using f by (simp add: ht_dialogues_spec_def ht_warnings_spec_def)
  finally show ?case .
qed

lemma originals_append:
  "length ds = length ls \<Longrightarrow> originals (ds @ ds') (ls @ ls') = originals ds ls @ originals ds' ls'"
  by (simp add: originals_def)

lemma add_dialogue_originals:
  assumes "length ds0 = length ls0" and "add_dialogue g (ds0, ls0, r) d = (ds, ls, r')"
  shows "length ds = length ls \<and> originals ds ls = originals ds0 ls0 @ [d]"
proof -
  from add_dialogue_result[of g ds0 ls0 r d] obtain r2 where
    "add_dialogue g (ds0, ls0, r) d = (ds0 @ [d], ls0 @ [1], r2)
      \<or> (\<exists>neg. differs_in_utterance d neg
            \<and> add_dialogue g (ds0, ls0, r) d = (ds0 @ [d, neg], ls0 @ [1, 0], r2))"
    by blast
  then show ?thesis
  proof
    assume "add_dialogue g (ds0, ls0, r) d = (ds0 @ [d], ls0 @ [1], r2)"
    then have "ds = ds0 @ [d]" and "ls = ls0 @ [1]" using assms(2) by simp_all
    then show ?thesis using assms(1) by (simp add: originals_append) (simp add: originals_def)
  next
    assume "\<exists>neg. differs_in_utterance d neg
            \<and> add_dialogue g (ds0, ls0, r) d = (ds0 @ [d, neg], ls0 @ [1, 0], r2)"
    then obtain neg where "add_dialogue g (ds0, ls0, r) d = (ds0 @ [d, neg], ls0 @ [1, 0], r2)" by blast
    then have "ds = ds0 @ [d, neg]" and "ls = ls0 @ [1, 0]" using assms(2) by simp_all
    then show ?thesis using assms(1) by (simp add: originals_append) (simp add: originals_def)
  qed
qed

lemma fold_add_dialogue_originals:
  "length ds0 = length ls0 \<Longrightarrow>
   fold (\<lambda>d st. add_dialogue g st d) xs (ds0, ls0, r) = (ds, ls, r') \<Longrightarrow>
   length ds = length ls \<and> originals ds ls = originals ds0 ls0 @ xs"
proof (induction xs arbitrary: ds0 ls0 r)
  case Nil
  then show ?case by simp
next
  case (Cons x xs)
  obtain ds1 ls1 r1 where st: "add_dialogue g (ds0, ls0, r) x = (ds1, ls1, r1)"
    by (cases "add_dialogue g (ds0, ls0, r) x") auto
  have one: "length ds1 = length ls1 \<and> originals ds1 ls1 = originals ds0 ls0 @ [x]"
    using Cons.prems(1) st by (rule add_dialogue_originals)
  have "fold (\<lambda>d st. add_dialogue g st d) xs (ds1, ls1, r1) = (ds, ls, r')"
    using Cons.prems(2) st by simp
  then have "length ds = length ls \<and> originals ds ls = originals ds1 ls1 @ xs"
    using one by (intro Cons.IH) simp_all
  then show ?case using one by simp
qed

lemma dataset_init_from_load:
  assumes "load_files_ht lib mx folder ([], []) = Inr (alld, pr)"
  shows "alld = [] \<longrightarrow> dataset_init lib g folder mx sd = Inl ValueError"
    and "alld \<noteq> [] \<longrightarrow>
           (\<exists>ds. dataset_init lib g folder mx sd = Inr (ds, pr)
               \<and> length (self_dialogues ds) = length (self_labels ds)
               \<and> originals (self_dialogues ds) (self_labels ds) = alld
               \<and> self_max_utterances ds = mx)"
proof -
  show "alld = [] \<longrightarrow> dataset_init lib g folder mx sd = Inl ValueError"
    using assms by (simp add: dataset_init_def)
  show "alld \<noteq> [] \<longrightarrow>
           (\<exists>ds. dataset_init lib g folder mx sd = Inr (ds, pr)
               \<and> length (self_dialogues ds) = length (self_labels ds)
               \<and> originals (self_dialogues ds) (self_labels ds) = alld
               \<and> self_max_utterances ds = mx)"
  proof
    assume ne: "alld \<noteq> []"
    obtain dsl ls r where f: "fold (\<lambda>d st. add_dialogue g st d) alld ([], [], seed g sd) = (dsl, ls, r)"
      by (cases "fold (\<lambda>d st. add_dialogue g st d) alld ([], [], seed g sd)") auto
    have inv: "length dsl = length ls \<and> originals dsl ls = originals [] [] @ alld"
      using f by (intro fold_add_dialogue_originals) simp_all
    have di: "dataset_init lib g folder mx sd
            = Inr (\<lparr>self_dialogues = dsl, self_labels = ls, self_max_utterances = mx\<rparr>, pr)"
      using assms ne f by (simp add: dataset_init_def Let_def)
    show "\<exists>ds. dataset_init lib g folder mx sd = Inr (ds, pr)
               \<and> length (self_dialogues ds) = length (self_labels ds)
               \<and> originals (self_dialogues ds) (self_labels ds) = alld
               \<and> self_max_utterances ds = mx"
      using di inv by (simp add: originals_def)
  qed
qed

lemma dataset_init_printed:
  assumes "load_files_ht lib mx folder ([], []) = Inr (alld, pr)"
    and "load_files_ht lib mx folder' ([], []) = Inr (alld, pr')"
  shows "(dataset_init lib g folder mx sd = Inl e \<longrightarrow> dataset_init lib g folder' mx sd = Inl e)
       \<and> (dataset_init lib g folder mx sd = Inr (ds, p) \<longrightarrow>
            p = pr \<and> dataset_init lib g folder' mx sd = Inr (ds, pr'))"
proof (cases "alld = []")
  case True
  then show ?thesis using assms by (simp add: dataset_init_def)
next
  case False
  obtain dsl ls r where f: "fold (\<lambda>d st. add_dialogue g st d) alld ([], [], seed g sd) = (dsl, ls, r)"
    by (cases "fold (\<lambda>d st. add_dialogue g st d) alld ([], [], seed g sd)") auto
  have a: "dataset_init lib g folder mx sd
            = Inr (\<lparr>self_dialogues = dsl, self_labels = ls, self_max_utterances = mx\<rparr>, pr)"
    using assms(1) False f by (simp add: dataset_init_def Let_def)
  have b: "dataset_init lib g folder' mx sd
            = Inr (\<lparr>self_dialogues = dsl, self_labels = ls, self_max_utterances = mx\<rparr>, pr')"
    using assms(2) False f by (simp add: dataset_init_def Let_def)
  show ?thesis unfolding a b by auto
qed

lemma load_files_ht_append:
  "load_files_ht lib mx (fs @ gs) st =
     (case load_files_ht lib mx fs st of Inl e \<Rightarrow> Inl e | Inr st' \<Rightarrow> load_files_ht lib mx gs st')"
proof (induction fs arbitrary: st)
  case Nil
  show ?case by simp
next
  case (Cons f fs)
  obtain fname lines where f: "f = (fname, lines)" by (cases f)
  show ?case unfolding f
    by (cases "load_lines_ht lib mx fname lines st") (simp_all add: Cons.IH)
qed

lemma load_files_ht_printed:
  "(load_files_ht lib mx fs (a, p) = Inl e \<longrightarrow> load_files_ht lib mx fs (a, p2) = Inl e)
   \<and> (load_files_ht lib mx fs (a, p) = Inr (a', p') \<longrightarrow>
        (\<exists>q. p' = p @ q \<and> load_files_ht lib mx fs (a, p2) = Inr (a', p2 @ q)))"
proof (induction fs arbitrary: a p p2)
  case Nil
  show ?case by simp
next
  case (Cons f fs)
  obtain fname lines where f: "f = (fname, lines)" by (cases f)
  show ?case
  proof (cases "load_lines_ht lib mx fname lines (a, p)")
    case (Inl err)
    then have "load_lines_ht lib mx fname lines (a, p2) = Inl err"
      using load_lines_ht_printed[of lib mx fname lines a p err p2] by blast
    then show ?thesis using Inl f by simp
  next
    case (Inr st1)
    obtain a1 p1 where st1: "st1 = (a1, p1)" by (cases st1)
    obtain q1 where q1: "p1 = p @ q1" and l2: "load_lines_ht lib mx fname lines (a, p2) = Inr (a1, p2 @ q1)"
      using load_lines_ht_printed[of lib mx fname lines a p _ p2 a1 p1] Inr st1 by blast
    have A: "load_files_ht lib mx (f # fs) (a, p) = load_files_ht lib mx fs (a1, p1)"
      using Inr st1 f by simp
    have B: "load_files_ht lib mx (f # fs) (a, p2) = load_files_ht lib mx fs (a1, p2 @ q1)"
      using l2 f by simp
    show ?thesis
      unfolding A B using Cons.IH[of a1 p1 "p2 @ q1"] q1 by auto
  qed
qed

lemma load_files_ht_skip:
  assumes "strip lib l \<noteq> []" and "loads lib (strip lib l) = None"
  shows "(load_files_ht lib mx (fpre @ (fname, pre @ post) # fpost) st = Inl e \<longrightarrow>
            load_files_ht lib mx (fpre @ (fname, pre @ l # post) # fpost) st = Inl e)
       \<and> (load_files_ht lib mx (fpre @ (fname, pre @ post) # fpost) st = Inr (a', p') \<longrightarrow>
            (\<exists>p q. p' = p @ q
               \<and> load_files_ht lib mx (fpre @ (fname, pre @ l # post) # fpost) st
                   = Inr (a', p @ warning fname # q)))"
proof (cases "load_files_ht lib mx fpre st")
  case (Inl err)
  then show ?thesis by (simp add: load_files_ht_append)
next
  case (Inr st1)
  note pre_ok = Inr
  show ?thesis
  proof (cases "load_lines_ht lib mx fname (pre @ post) st1")
    case (Inl err)
    then have "load_lines_ht lib mx fname (pre @ l # post) st1 = Inl err"
      using load_lines_ht_skip[OF assms, of mx fname pre post st1 err] by blast
    then show ?thesis using pre_ok Inl by (simp add: load_files_ht_append)
  next
    case (Inr st2)
    obtain a2 p2 where st2: "st2 = (a2, p2)" by (cases st2)
    obtain p q where pq: "p2 = p @ q"
      and w: "load_lines_ht lib mx fname (pre @ l # post) st1 = Inr (a2, p @ warning fname # q)"
      using load_lines_ht_skip[OF assms, of mx fname pre post st1 _ a2 p2] Inr st2 by blast
    have A: "load_files_ht lib mx (fpre @ (fname, pre @ post) # fpost) st
               = load_files_ht lib mx fpost (a2, p2)"
      using pre_ok Inr st2 by (simp add: load_files_ht_append)
    have B: "load_files_ht lib mx (fpre @ (fname, pre @ l # post) # fpost) st
               = load_files_ht lib mx fpost (a2, p @ warning fname # q)"
      using pre_ok w by (simp add: load_files_ht_append)
    have C: "(load_files_ht lib mx fpost (a2, p2) = Inl e \<longrightarrow>
                load_files_ht lib mx fpost (a2, p @ warning fname # q) = Inl e)
           \<and> (load_files_ht lib mx fpost (a2, p2) = Inr (a', p') \<longrightarrow>
                (\<exists>q'. p' = p2 @ q'
                   \<and> load_files_ht lib mx fpost (a2, p @ warning fname # q) = Inr (a', (p @ warning fname # q) @ q')))"
      by (rule load_files_ht_printed)
    show ?thesis
      unfolding A B
    proof (intro conjI impI)
      assume "load_files_ht lib mx fpost (a2, p2) = Inl e"
      then show "load_files_ht lib mx fpost (a2, p @ warning fname # q) = Inl e" using C by blast
    next
      assume "load_files_ht lib mx fpost (a2, p2) = Inr (a', p')"
      then obtain q' where q': "p' = p2 @ q'"
        and r: "load_files_ht lib mx fpost (a2, p @ warning fname # q) = Inr (a', (p @ warning fname # q) @ q')"
        using C by blast
      have "p' = p @ (q @ q')" using q' pq by simp
      moreover have "load_files_ht lib mx fpost (a2, p @ warning fname # q) = Inr (a', p @ warning fname # (q @ q'))"
        using r by simp
      ultimately show "\<exists>pa qa. p' = pa @ qa
               \<and> load_files_ht lib mx fpost (a2, p @ warning fname # q) = Inr (a', pa @ warning fname # qa)"
        by blast
    qed
  qed
qed

lemma dataset_init_skip:
  assumes "strip lib l \<noteq> []" and "loads lib (strip lib l) = None"
  shows "(dataset_init lib g (fpre @ (fname, pre @ post) # fpost) mx sd = Inl e \<longrightarrow>
            dataset_init lib g (fpre @ (fname, pre @ l # post) # fpost) mx sd = Inl e)
       \<and> (dataset_init lib g (fpre @ (fname, pre @ post) # fpost) mx sd = Inr (ds, p') \<longrightarrow>
            (\<exists>p q. p' = p @ q
               \<and> dataset_init lib g (fpre @ (fname, pre @ l # post) # fpost) mx sd
                   = Inr (ds, p @ warning fname # q)))"
proof (cases "load_files_ht lib mx (fpre @ (fname, pre @ post) # fpost) ([], [])")
  case (Inl err)
  then have "load_files_ht lib mx (fpre @ (fname, pre @ l # post) # fpost) ([], []) = Inl err"
    using load_files_ht_skip[OF assms, of mx fpre fname pre post fpost "([], [])" err] by blast
  then show ?thesis using Inl by (simp add: dataset_init_def)
next
  case (Inr res)
  obtain alld pr where res: "res = (alld, pr)" by (cases res)
  obtain p q where pq: "pr = p @ q"
    and w: "load_files_ht lib mx (fpre @ (fname, pre @ l # post) # fpost) ([], [])
              = Inr (alld, p @ warning fname # q)"
    using load_files_ht_skip[OF assms, of mx fpre fname pre post fpost "([], [])" _ alld pr] Inr res by blast
  have base: "load_files_ht lib mx (fpre @ (fname, pre @ post) # fpost) ([], []) = Inr (alld, pr)"
    using Inr res by simp
  have D: "(dataset_init lib g (fpre @ (fname, pre @ post) # fpost) mx sd = Inl e \<longrightarrow>
              dataset_init lib g (fpre @ (fname, pre @ l # post) # fpost) mx sd = Inl e)
         \<and> (dataset_init lib g (fpre @ (fname, pre @ post) # fpost) mx sd = Inr (ds, p') \<longrightarrow>
              p' = pr \<and> dataset_init lib g (fpre @ (fname, pre @ l # post) # fpost) mx sd
                          = Inr (ds, p @ warning fname # q))"
    using base w by (rule dataset_init_printed)
  show ?thesis using D pq by blast
qed

lemma load_folder_lcd_append:
  "load_folder_lcd lib (fs @ gs) st =
     (case load_folder_lcd lib fs st of Inl e \<Rightarrow> Inl e | Inr st' \<Rightarrow> load_folder_lcd lib gs st')"
proof (induction fs arbitrary: st)
  case Nil
  show ?case by simp
next
  case (Cons f fs)
  obtain fname lines where f: "f = (fname, lines)" by (cases f)
  show ?case unfolding f
    by (cases "load_lines_lcd lib fname lines st") (simp_all add: Cons.IH)
qed

lemma load_folder_lcd_printed:
  "(load_folder_lcd lib fs (a, p) = Inl e \<longrightarrow> load_folder_lcd lib fs (a, p2) = Inl e)
   \<and> (load_folder_lcd lib fs (a, p) = Inr (a', p') \<longrightarrow>
        (\<exists>q. p' = p @ q \<and> load_folder_lcd lib fs (a, p2) = Inr (a', p2 @ q)))"
proof (induction fs arbitrary: a p p2)
  case Nil
  show ?case by simp
next
  case (Cons f fs)
  obtain fname lines where f: "f = (fname, lines)" by (cases f)
  show ?case
  proof (cases "endswith fname ''.jsonl''")
    case False
    then show ?thesis using Cons.IH[of a p p2] f by simp
  next
    case True
    show ?thesis
    proof (cases "load_lines_lcd lib fname lines (a, p)")
      case (Inl err)
      then have "load_lines_lcd lib fname lines (a, p2) = Inl err"
        using load_lines_lcd_printed[of lib fname lines a p err p2] by blast
      then show ?thesis using Inl f True by simp
    next
      case (Inr st1)
      obtain a1 p1 where st1: "st1 = (a1, p1)" by (cases st1)
      obtain q1 where q1: "p1 = p @ q1" and l2: "load_lines_lcd lib fname lines (a, p2) = Inr (a1, p2 @ q1)"
        using load_lines_lcd_printed[of lib fname lines a p _ p2 a1 p1] Inr st1 by blast
      have A: "load_folder_lcd lib (f # fs) (a, p) = load_folder_lcd lib fs (a1, p1)"
        using Inr st1 f True by simp
      have B: "load_folder_lcd lib (f # fs) (a, p2) = load_folder_lcd lib fs (a1, p2 @ q1)"
        using l2 f True by simp
      show ?thesis
        unfolding A B using Cons.IH[of a1 p1 "p2 @ q1"] q1 by auto
    qed
  qed
qed

lemma load_folder_lcd_skip:
  assumes "loads lib l = None" and "endswith fname ''.jsonl''"
  shows "(load_folder_lcd lib (fpre @ (fname, pre @ post) # fpost) st = Inl e \<longrightarrow>
            load_folder_lcd lib (fpre @ (fname, pre @ l # post) # fpost) st = Inl e)
       \<and> (load_folder_lcd lib (fpre @ (fname, pre @ post) # fpost) st = Inr (a', p') \<longrightarrow>
            (\<exists>p q. p' = p @ q
               \<and> load_folder_lcd lib (fpre @ (fname, pre @ l # post) # fpost) st
                   = Inr (a', p @ warning fname # q)))"
proof (cases "load_folder_lcd lib fpre st")
  case (Inl err)
  then show ?thesis by (simp add: load_folder_lcd_append)
next
  case (Inr st1)
  note pre_ok = Inr
  show ?thesis
  proof (cases "load_lines_lcd lib fname (pre @ post) st1")
    case (Inl err)
    then have "load_lines_lcd lib fname (pre @ l # post) st1 = Inl err"
      using load_lines_lcd_skip[OF assms(1), of fname pre post st1 err] by blast
    then show ?thesis using pre_ok Inl assms(2) by (simp add: load_folder_lcd_append)
  next
    case (Inr st2)
    obtain a2 p2 where st2: "st2 = (a2, p2)" by (cases st2)
    obtain p q where pq: "p2 = p @ q"
      and w: "load_lines_lcd lib fname (pre @ l # post) st1 = Inr (a2, p @ warning fname # q)"
      using load_lines_lcd_skip[OF assms(1), of fname pre post st1 _ a2 p2] Inr st2 by blast
    have A: "load_folder_lcd lib (fpre @ (fname, pre @ post) # fpost) st
               = load_folder_lcd lib fpost (a2, p2)"
      using pre_ok Inr st2 assms(2) by (simp add: load_folder_lcd_append)
    have B: "load_folder_lcd lib (fpre @ (fname, pre @ l # post) # fpost) st
               = load_folder_lcd lib fpost (a2, p @ warning fname # q)"
      using pre_ok w assms(2) by (simp add: load_folder_lcd_append)
    have C: "(load_folder_lcd lib fpost (a2, p2) = Inl e \<longrightarrow>
                load_folder_lcd lib fpost (a2, p @ warning fname # q) = Inl e)
           \<and> (load_folder_lcd lib fpost (a2, p2) = Inr (a', p') \<longrightarrow>
                (\<exists>q'. p' = p2 @ q'
                   \<and> load_folder_lcd lib fpost (a2, p @ warning fname # q) = Inr (a', (p @ warning fname # q) @ q')))"
      by (rule load_folder_lcd_printed)
    show ?thesis
      unfolding A B
    proof (intro conjI impI)
      assume "load_folder_lcd lib fpost (a2, p2) = Inl e"
      then show "load_folder_lcd lib fpost (a2, p @ warning fname # q) = Inl e" using C by blast
    next
      assume "load_folder_lcd lib fpost (a2, p2) = Inr (a', p')"
      then obtain q' where q': "p' = p2 @ q'"
        and r: "load_folder_lcd lib fpost (a2, p @ warning fname # q) = Inr (a', (p @ warning fname # q) @ q')"
        using C by blast
      have "p' = p @ (q @ q')" using q' pq by simp
      moreover have "load_folder_lcd lib fpost (a2, p @ warning fname # q) = Inr (a', p @ warning fname # (q @ q'))"
        using r by simp
      ultimately show "\<exists>pa qa. p' = pa @ qa
               \<and> load_folder_lcd lib fpost (a2, p @ warning fname # q) = Inr (a', pa @ warning fname # qa)"
        by blast
    qed
  qed
qed

lemma kept_dialogues_spec_skip:
  "loads lib l = None \<Longrightarrow>
   kept_dialogues_spec lib (pre @ l # post) = kept_dialogues_spec lib (pre @ post)
   \<and> line_warnings_spec lib fname (pre @ l # post)
       = line_warnings_spec lib fname pre @ warning fname # line_warnings_spec lib fname post"
  by (simp add: kept_dialogues_spec_def line_warnings_spec_def List.map_filter_def line_dialogue_def)

text \<open>
  Claim C9. When the corpus yields no valid dialogue, the dataset constructor raises
  \<^verbatim>\<open>ValueError\<close> and builds no dataset, and a dataset that is built is never empty. A
  line that fails to parse is skipped with a warning and the load goes on: in both line
  loops, in the constructor and in \<^verbatim>\<open>load_dialogues_with_speakers\<close>, a corpus with such a
  line gives the same result (the same dialogues, the same dataset, or the same exception of
  another line) as the corpus without it, with one more warning printed at the place of the
  line. On a corpus in which no parsed record raises, \<^verbatim>\<open>load_dialogues_with_speakers\<close>
  returns exactly the dialogues of at least 2 turns of the parsed lines of the
  \<^verbatim>\<open>.jsonl\<close> files, in order, with one warning per rejected line; the constructor
  raises \<^verbatim>\<open>ValueError\<close> when there is no such dialogue among the stripped non-blank lines,
  and otherwise returns a dataset whose dialogues of label 1 are exactly those dialogues
  (cut to \<open>max_utterances\<close>), with the same warnings.
\<close>

theorem corpus_error_handling:
  "(load_files_ht lib mx folder ([], []) = Inr ([], printed) \<longrightarrow>
       dataset_init lib g folder mx sd = Inl ValueError)
   \<and> (dataset_init lib g folder mx sd = Inr (ds, printed') \<longrightarrow> self_dialogues ds \<noteq> [])
   \<and> (strip lib l \<noteq> [] \<and> loads lib (strip lib l) = None \<longrightarrow>
        (load_lines_ht lib mx fname (pre @ post) st = Inl e \<longrightarrow>
           load_lines_ht lib mx fname (pre @ l # post) st = Inl e)
        \<and> (load_lines_ht lib mx fname (pre @ post) st = Inr (a', p') \<longrightarrow>
             (\<exists>p q. p' = p @ q
                \<and> load_lines_ht lib mx fname (pre @ l # post) st = Inr (a', p @ warning fname # q))))
   \<and> (loads lib l = None \<longrightarrow>
        (load_lines_lcd lib fname (pre @ post) st = Inl e \<longrightarrow>
           load_lines_lcd lib fname (pre @ l # post) st = Inl e)
        \<and> (load_lines_lcd lib fname (pre @ post) st = Inr (a', p') \<longrightarrow>
             (\<exists>p q. p' = p @ q
                \<and> load_lines_lcd lib fname (pre @ l # post) st = Inr (a', p @ warning fname # q))))
   \<and> ((\<forall>(fname, lines) \<in> set folder. \<forall>l \<in> set (nonblank lib lines). \<not> line_raises lib l) \<longrightarrow>
        load_files_ht lib mx folder ([], [])
          = Inr (ht_dialogues_spec lib mx folder, ht_warnings_spec lib folder)
        \<and> (ht_dialogues_spec lib mx folder = [] \<longrightarrow>
             dataset_init lib g folder mx sd = Inl ValueError)
        \<and> (ht_dialogues_spec lib mx folder \<noteq> [] \<longrightarrow>
             (\<exists>built. dataset_init lib g folder mx sd = Inr (built, ht_warnings_spec lib folder)
                \<and> length (self_dialogues built) = length (self_labels built)
                \<and> originals (self_dialogues built) (self_labels built) = ht_dialogues_spec lib mx folder
                \<and> self_max_utterances built = mx)))
   \<and> ((\<forall>(fname, lines) \<in> set (jsonl_files folder). \<forall>l \<in> set lines. \<not> line_raises lib l) \<longrightarrow>
        load_dialogues_with_speakers lib folder
          = Inr (lcd_dialogues_spec lib folder, lcd_warnings_spec lib folder))
   \<and> (strip lib l \<noteq> [] \<and> loads lib (strip lib l) = None \<longrightarrow>
        (dataset_init lib g (fpre @ (fname, pre @ post) # fpost) mx sd = Inl e \<longrightarrow>
           dataset_init lib g (fpre @ (fname, pre @ l # post) # fpost) mx sd = Inl e)
        \<and> (dataset_init lib g (fpre @ (fname, pre @ post) # fpost) mx sd = Inr (ds, p') \<longrightarrow>
             (\<exists>p q. p' = p @ q
                \<and> dataset_init lib g (fpre @ (fname, pre @ l # post) # fpost) mx sd
                    = Inr (ds, p @ warning fname # q))))
   \<and> (loads lib l = None \<and> endswith fname ''.jsonl'' \<longrightarrow>
        (load_dialogues_with_speakers lib (fpre @ (fname, pre @ post) # fpost) = Inl e \<longrightarrow>
           load_dialogues_with_speakers lib (fpre @ (fname, pre @ l # post) # fpost) = Inl e)
        \<and> (load_dialogues_with_speakers lib (fpre @ (fname, pre @ post) # fpost) = Inr (a', p') \<longrightarrow>
             (\<exists>p q. p' = p @ q
                \<and> load_dialogues_with_speakers lib (fpre @ (fname, pre @ l # post) # fpost)
                    = Inr (a', p @ warning fname # q))))
   \<and> (loads lib l = None \<longrightarrow>
        kept_dialogues_spec lib (pre @ l # post) = kept_dialogues_spec lib (pre @ post)
        \<and> line_warnings_spec lib fname (pre @ l # post)
            = line_warnings_spec lib fname pre @ warning fname # line_warnings_spec lib fname post)"
proof -
  note L = line_loops_skip [where lib = lib and mx = mx and folder = folder and printed = printed and g = g
      and sd = sd and ds = ds and printed' = printed' and l = l and fname = fname and pre = pre
      and post = post and st = st and e = e and a' = a' and p' = p']
  have c5: "(\<forall>(fname, lines) \<in> set folder. \<forall>l \<in> set (nonblank lib lines). \<not> line_raises lib l) \<longrightarrow>
        load_files_ht lib mx folder ([], [])
          = Inr (ht_dialogues_spec lib mx folder, ht_warnings_spec lib folder)
        \<and> (ht_dialogues_spec lib mx folder = [] \<longrightarrow>
             dataset_init lib g folder mx sd = Inl ValueError)
        \<and> (ht_dialogues_spec lib mx folder \<noteq> [] \<longrightarrow>
             (\<exists>built. dataset_init lib g folder mx sd = Inr (built, ht_warnings_spec lib folder)
                \<and> length (self_dialogues built) = length (self_labels built)
                \<and> originals (self_dialogues built) (self_labels built) = ht_dialogues_spec lib mx folder
                \<and> self_max_utterances built = mx))"
  proof
    assume ok: "\<forall>(fname, lines) \<in> set folder. \<forall>l \<in> set (nonblank lib lines). \<not> line_raises lib l"
    have "load_files_ht lib mx folder ([], [])
            = Inr ([] @ ht_dialogues_spec lib mx folder, [] @ ht_warnings_spec lib folder)"
      using ok by (rule load_files_ht_spec)
    then have ld: "load_files_ht lib mx folder ([], [])
            = Inr (ht_dialogues_spec lib mx folder, ht_warnings_spec lib folder)" by simp
    show "load_files_ht lib mx folder ([], [])
          = Inr (ht_dialogues_spec lib mx folder, ht_warnings_spec lib folder)
        \<and> (ht_dialogues_spec lib mx folder = [] \<longrightarrow>
             dataset_init lib g folder mx sd = Inl ValueError)
        \<and> (ht_dialogues_spec lib mx folder \<noteq> [] \<longrightarrow>
             (\<exists>built. dataset_init lib g folder mx sd = Inr (built, ht_warnings_spec lib folder)
                \<and> length (self_dialogues built) = length (self_labels built)
                \<and> originals (self_dialogues built) (self_labels built) = ht_dialogues_spec lib mx folder
                \<and> self_max_utterances built = mx))"
      using ld dataset_init_from_load[OF ld, of g sd] by blast
  qed
  have c6: "(\<forall>(fname, lines) \<in> set (jsonl_files folder). \<forall>l \<in> set lines. \<not> line_raises lib l) \<longrightarrow>
        load_dialogues_with_speakers lib folder
          = Inr (lcd_dialogues_spec lib folder, lcd_warnings_spec lib folder)"
  proof
    assume ok: "\<forall>(fname, lines) \<in> set (jsonl_files folder). \<forall>l \<in> set lines. \<not> line_raises lib l"
    have "load_folder_lcd lib folder ([], [])
            = Inr ([] @ lcd_dialogues_spec lib folder, [] @ lcd_warnings_spec lib folder)"
      using ok by (rule load_folder_lcd_spec)
    then show "load_dialogues_with_speakers lib folder
          = Inr (lcd_dialogues_spec lib folder, lcd_warnings_spec lib folder)"
      by (simp add: load_dialogues_with_speakers_def)
  qed
  have c7: "strip lib l \<noteq> [] \<and> loads lib (strip lib l) = None \<longrightarrow>
        (dataset_init lib g (fpre @ (fname, pre @ post) # fpost) mx sd = Inl e \<longrightarrow>
           dataset_init lib g (fpre @ (fname, pre @ l # post) # fpost) mx sd = Inl e)
        \<and> (dataset_init lib g (fpre @ (fname, pre @ post) # fpost) mx sd = Inr (ds, p') \<longrightarrow>
             (\<exists>p q. p' = p @ q
                \<and> dataset_init lib g (fpre @ (fname, pre @ l # post) # fpost) mx sd
                    = Inr (ds, p @ warning fname # q)))"
    using dataset_init_skip[where lib = lib and l = l and g = g and fpre = fpre and fname = fname
        and pre = pre and post = post and fpost = fpost and mx = mx and sd = sd and e = e and ds = ds
        and p' = p'] by blast
  have c8: "loads lib l = None \<and> endswith fname ''.jsonl'' \<longrightarrow>
        (load_dialogues_with_speakers lib (fpre @ (fname, pre @ post) # fpost) = Inl e \<longrightarrow>
           load_dialogues_with_speakers lib (fpre @ (fname, pre @ l # post) # fpost) = Inl e)
        \<and> (load_dialogues_with_speakers lib (fpre @ (fname, pre @ post) # fpost) = Inr (a', p') \<longrightarrow>
             (\<exists>p q. p' = p @ q
                \<and> load_dialogues_with_speakers lib (fpre @ (fname, pre @ l # post) # fpost)
                    = Inr (a', p @ warning fname # q)))"
    unfolding load_dialogues_with_speakers_def
    using load_folder_lcd_skip[where lib = lib and l = l and fname = fname and fpre = fpre and pre = pre
        and post = post and fpost = fpost and st = "([], [])" and e = e and a' = a' and p' = p'] by blast
  have c9: "loads lib l = None \<longrightarrow>
        kept_dialogues_spec lib (pre @ l # post) = kept_dialogues_spec lib (pre @ post)
        \<and> line_warnings_spec lib fname (pre @ l # post)
            = line_warnings_spec lib fname pre @ warning fname # line_warnings_spec lib fname post"
    using kept_dialogues_spec_skip[where lib = lib and l = l and pre = pre and post = post and fname = fname]
    by blast
  show ?thesis
    using L c5 c6 c7 c8 c9 by (intro conjI) blast+
qed

theorem corpus_error_handling_witness:
  "load_files_ht toy_lib 16 [(''f.jsonl'', [''{broken'', ''''])] ([], []) = Inr ([], [warning ''f.jsonl''])
   \<and> dataset_init toy_lib det_rng [(''f.jsonl'', [''{broken'', ''''])] 16 42 = Inl ValueError
   \<and> strip toy_lib ''{broken'' \<noteq> [] \<and> loads toy_lib (strip toy_lib ''{broken'') = None
   \<and> loads toy_lib ''{broken'' = None
   \<and> load_lines_ht toy_lib 16 ''f.jsonl'' ([''GREETING''] @ [''GREETING'']) ([], [])
       = Inr ([[(''A'', JString ''hi''), (''B'', JString ''hello'')],
               [(''A'', JString ''hi''), (''B'', JString ''hello'')]], [])
   \<and> load_lines_ht toy_lib 16 ''f.jsonl'' ([''GREETING''] @ ''{broken'' # [''GREETING'']) ([], [])
       = Inr ([[(''A'', JString ''hi''), (''B'', JString ''hello'')],
               [(''A'', JString ''hi''), (''B'', JString ''hello'')]], [warning ''f.jsonl''])
   \<and> load_lines_lcd toy_lib ''f.jsonl'' ([''GREETING''] @ ''{broken'' # [''GREETING'']) ([], [])
       = Inr ([[(''A'', JString ''hi''), (''B'', JString ''hello'')],
               [(''A'', JString ''hi''), (''B'', JString ''hello'')]], [warning ''f.jsonl''])
   \<and> load_lines_ht toy_lib 16 ''f.jsonl'' ([''GREETING''] @ [''null'']) ([], []) = Inl AttributeError
   \<and> load_lines_ht toy_lib 16 ''f.jsonl'' ([''GREETING''] @ ''{broken'' # [''null'']) ([], []) = Inl AttributeError
   \<and> load_lines_lcd toy_lib ''f.jsonl'' ([''GREETING''] @ ''{broken'' # [''null'']) ([], []) = Inl AttributeError
   \<and> list_all (\<lambda>l. \<not> line_raises toy_lib l) (concat (map (\<lambda>(fname, lines). nonblank toy_lib lines) toy_folder))
   \<and> list_all (\<lambda>l. \<not> line_raises toy_lib l) (concat (map snd (jsonl_files toy_folder)))
   \<and> ht_dialogues_spec toy_lib 16 toy_folder
       = [[(''A'', JString ''hi''), (''B'', JString ''hello'')], chat_dialogue, chat_dialogue]
   \<and> (\<exists>built. dataset_init toy_lib det_rng toy_folder 16 42 = Inr (built, [warning ''f.jsonl''])
          \<and> self_dialogues built \<noteq> []
          \<and> length (self_dialogues built) = length (self_labels built)
          \<and> originals (self_dialogues built) (self_labels built)
              = [[(''A'', JString ''hi''), (''B'', JString ''hello'')], chat_dialogue, chat_dialogue]
          \<and> self_max_utterances built = 16)
   \<and> dataset_init toy_lib det_rng
         [(''f.jsonl'', [''GREETING'', '' '', ''CHAT'']), (''notes.txt'', [''CHAT''])] 16 42
       = Inr (\<lparr>self_dialogues = [[(''A'', JString ''hi''), (''B'', JString ''hello'')],
                                 chat_dialogue,
                                 [(''A'', JString ''how are you''), (''B'', JString ''hello''),
                                  (''A'', JString ''hi''), (''B'', JString ''fine'')],
                                 chat_dialogue,
                                 [(''A'', JString ''how are you''), (''B'', JString ''hello''),
                                  (''A'', JString ''hi''), (''B'', JString ''fine'')]],
               self_labels = [1, 1, 0, 1, 0], self_max_utterances = 16\<rparr>, [])
   \<and> dataset_init toy_lib det_rng toy_folder 16 42
       = Inr (\<lparr>self_dialogues = [[(''A'', JString ''hi''), (''B'', JString ''hello'')],
                                 chat_dialogue,
                                 [(''A'', JString ''how are you''), (''B'', JString ''hello''),
                                  (''A'', JString ''hi''), (''B'', JString ''fine'')],
                                 chat_dialogue,
                                 [(''A'', JString ''how are you''), (''B'', JString ''hello''),
                                  (''A'', JString ''hi''), (''B'', JString ''fine'')]],
               self_labels = [1, 1, 0, 1, 0], self_max_utterances = 16\<rparr>,
              [warning ''f.jsonl''])
   \<and> load_dialogues_with_speakers toy_lib
         [(''f.jsonl'', [''GREETING'', '' '', ''CHAT'']), (''notes.txt'', [''CHAT''])]
       = Inr ([[(''A'', JString ''hi''), (''B'', JString ''hello'')], chat_dialogue], [warning ''f.jsonl''])
   \<and> load_dialogues_with_speakers toy_lib toy_folder
       = Inr ([[(''A'', JString ''hi''), (''B'', JString ''hello'')], chat_dialogue],
              [warning ''f.jsonl'', warning ''f.jsonl''])
   \<and> load_dialogues_with_speakers toy_lib [(''f.jsonl'', [''GREETING'', ''null''])] = Inl AttributeError
   \<and> load_dialogues_with_speakers toy_lib [(''f.jsonl'', [''GREETING'', ''{broken'', ''null''])]
       = Inl AttributeError
   \<and> kept_dialogues_spec toy_lib [''GREETING'', ''{broken'', '' '', ''CHAT'']
       = kept_dialogues_spec toy_lib [''GREETING'', '' '', ''CHAT'']
   \<and> line_warnings_spec toy_lib ''f.jsonl'' [''GREETING'', ''{broken'', '' '', ''CHAT'']
       = [warning ''f.jsonl'', warning ''f.jsonl'']"
proof -
  let ?d = "[(''A'', JString ''hi''), (''B'', JString ''hello'')]"
  let ?neg = "[(''A'', JString ''how are you''), (''B'', JString ''hello''),
               (''A'', JString ''hi''), (''B'', JString ''fine'')]"
  let ?w = "warning ''f.jsonl''"
  let ?ds = "\<lparr>self_dialogues = [?d, chat_dialogue, ?neg, chat_dialogue, ?neg],
              self_labels = [1, 1, 0, 1, 0], self_max_utterances = 16\<rparr>"
  let ?empty = "[(''f.jsonl'', [''{broken'', ''''])]"
  have tf: "toy_folder
      = [] @ (''f.jsonl'', [''GREETING''] @ ''{broken'' # ['' '', ''CHAT'']) # [(''notes.txt'', [''CHAT''])]"
    by (simp add: toy_folder_def)
  have ex: "extract_dialogue greeting = Inr ?d"
    by (simp add: extract_dialogue_def get_dialogue_def iterate_def turn_items_def greeting_def)
  have exn: "extract_dialogue JNull = Inl AttributeError"
    by (simp add: extract_dialogue_def get_dialogue_def)
  have h1: "load_files_ht toy_lib 16 ?empty ([], []) = Inr ([], [?w])"
    by (simp add: toy_lib_def)
  have h2: "strip toy_lib ''{broken'' \<noteq> [] \<and> loads toy_lib (strip toy_lib ''{broken'') = None"
    by (simp add: toy_lib_def)
  have h2': "loads toy_lib ''{broken'' = None"
    by (simp add: toy_lib_def)
  have jl: "endswith ''f.jsonl'' ''.jsonl''" by code_simp
  have h3: "load_lines_ht toy_lib 16 ''f.jsonl'' ([''GREETING''] @ [''GREETING'']) ([], []) = Inr ([?d, ?d], [])"
    by (simp add: toy_lib_def ex py_prefix_def)
  have h4: "load_lines_lcd toy_lib ''f.jsonl'' ([''GREETING''] @ [''GREETING'']) ([], []) = Inr ([?d, ?d], [])"
    by (simp add: toy_lib_def ex)
  have h3n: "load_lines_ht toy_lib 16 ''f.jsonl'' ([''GREETING''] @ [''null'']) ([], []) = Inl AttributeError"
    by (simp add: toy_lib_def ex exn py_prefix_def)
  have h4n: "load_lines_lcd toy_lib ''f.jsonl'' ([''GREETING''] @ [''null'']) ([], []) = Inl AttributeError"
    by (simp add: toy_lib_def ex exn)
  have h5: "\<forall>(fname, lines) \<in> set toy_folder. \<forall>l \<in> set (nonblank toy_lib lines). \<not> line_raises toy_lib l"
    by code_simp
  have h5e: "\<forall>(fname, lines) \<in> set ?empty. \<forall>l \<in> set (nonblank toy_lib lines). \<not> line_raises toy_lib l"
    by code_simp
  have h5': "\<forall>(fname, lines) \<in> set (jsonl_files toy_folder). \<forall>l \<in> set lines. \<not> line_raises toy_lib l"
    by code_simp
  have k5: "list_all (\<lambda>l. \<not> line_raises toy_lib l)
              (concat (map (\<lambda>(fname, lines). nonblank toy_lib lines) toy_folder))"
    by code_simp
  have k5': "list_all (\<lambda>l. \<not> line_raises toy_lib l) (concat (map snd (jsonl_files toy_folder)))"
    by code_simp
  have h6: "ht_dialogues_spec toy_lib 16 toy_folder = [?d, chat_dialogue, chat_dialogue]" by code_simp
  have h6e: "ht_dialogues_spec toy_lib 16 ?empty = []" by code_simp
  have h6w: "ht_warnings_spec toy_lib toy_folder = [?w]" by code_simp
  have h7: "lcd_dialogues_spec toy_lib toy_folder = [?d, chat_dialogue]" by code_simp
  have h7w: "lcd_warnings_spec toy_lib toy_folder = [?w, ?w]" by code_simp
  have h8: "dataset_init toy_lib det_rng
              [(''f.jsonl'', [''GREETING'', '' '', ''CHAT'']), (''notes.txt'', [''CHAT''])] 16 42
            = Inr (?ds, [])"
    by code_simp
  have h8': "dataset_init toy_lib det_rng
               ([] @ (''f.jsonl'', [''GREETING''] @ ['' '', ''CHAT'']) # [(''notes.txt'', [''CHAT''])]) 16 42
             = Inr (?ds, [])"
    using h8 by simp
  have h8e: "dataset_init toy_lib det_rng ([] @ (''f.jsonl'', [] @ ['''']) # []) 16 42 = Inl ValueError"
    by code_simp
  have h9: "load_dialogues_with_speakers toy_lib
              [(''f.jsonl'', [''GREETING'', '' '', ''CHAT'']), (''notes.txt'', [''CHAT''])]
            = Inr ([?d, chat_dialogue], [?w])"
    by code_simp
  have h9': "load_dialogues_with_speakers toy_lib
               ([] @ (''f.jsonl'', [''GREETING''] @ ['' '', ''CHAT'']) # [(''notes.txt'', [''CHAT''])])
             = Inr ([?d, chat_dialogue], [?w])"
    using h9 by simp
  have h9n: "load_dialogues_with_speakers toy_lib ([] @ (''f.jsonl'', [''GREETING''] @ [''null'']) # [])
             = Inl AttributeError"
    by code_simp

  note T = corpus_error_handling [where lib = toy_lib and mx = 16 and g = det_rng and sd = 42
      and folder = ?empty and printed = "[?w]"
      and l = "''{broken''" and fname = "''f.jsonl''" and pre = "[''GREETING'']" and post = "[''GREETING'']"
      and st = "([], [])" and a' = "[?d, ?d]" and p' = "[]"]
  have c1: "dataset_init toy_lib det_rng ?empty 16 42 = Inl ValueError"
    using T [THEN conjunct1] h1 by blast
  have c1': "dataset_init toy_lib det_rng ?empty 16 42 = Inl ValueError"
    using T [THEN conjunct2, THEN conjunct2, THEN conjunct2, THEN conjunct2, THEN conjunct1] h5e h6e by blast
  have c2: "load_lines_ht toy_lib 16 ''f.jsonl'' ([''GREETING''] @ ''{broken'' # [''GREETING'']) ([], [])
       = Inr ([?d, ?d], [?w])"
    using T [THEN conjunct2, THEN conjunct2, THEN conjunct1] h2 h3 by auto
  have c3: "load_lines_lcd toy_lib ''f.jsonl'' ([''GREETING''] @ ''{broken'' # [''GREETING'']) ([], [])
       = Inr ([?d, ?d], [?w])"
    using T [THEN conjunct2, THEN conjunct2, THEN conjunct2, THEN conjunct1] h2' h4 by auto

  note N = corpus_error_handling [where lib = toy_lib and mx = 16 and g = det_rng and sd = 42
      and l = "''{broken''" and fname = "''f.jsonl''" and pre = "[''GREETING'']" and post = "[''null'']"
      and st = "([], [])" and e = AttributeError and fpre = "[]" and fpost = "[]"]
  have n1: "load_lines_ht toy_lib 16 ''f.jsonl'' ([''GREETING''] @ ''{broken'' # [''null'']) ([], [])
              = Inl AttributeError"
    using N [THEN conjunct2, THEN conjunct2, THEN conjunct1] h2 h3n by blast
  have n2: "load_lines_lcd toy_lib ''f.jsonl'' ([''GREETING''] @ ''{broken'' # [''null'']) ([], [])
              = Inl AttributeError"
    using N [THEN conjunct2, THEN conjunct2, THEN conjunct2, THEN conjunct1] h2' h4n by blast
  have "load_dialogues_with_speakers toy_lib ([] @ (''f.jsonl'', [''GREETING''] @ ''{broken'' # [''null'']) # [])
              = Inl AttributeError"
    using N [THEN conjunct2, THEN conjunct2, THEN conjunct2, THEN conjunct2, THEN conjunct2, THEN conjunct2, THEN conjunct2, THEN conjunct1] h2' jl h9n by blast
  then have n3: "load_dialogues_with_speakers toy_lib [(''f.jsonl'', [''GREETING'', ''{broken'', ''null''])]
              = Inl AttributeError"
    by simp

  note E = corpus_error_handling [where lib = toy_lib and mx = 16 and g = det_rng and sd = 42
      and l = "''{broken''" and fname = "''f.jsonl''" and pre = "[]" and post = "['''']"
      and e = ValueError and fpre = "[]" and fpost = "[]"]
  have "dataset_init toy_lib det_rng ([] @ (''f.jsonl'', [] @ ''{broken'' # ['''']) # []) 16 42 = Inl ValueError"
    using E [THEN conjunct2, THEN conjunct2, THEN conjunct2, THEN conjunct2, THEN conjunct2, THEN conjunct2, THEN conjunct1] h2 h8e by blast
  then have c1'': "dataset_init toy_lib det_rng ?empty 16 42 = Inl ValueError"
    by simp

  note U = corpus_error_handling [where lib = toy_lib and mx = 16 and g = det_rng and sd = 42
      and folder = toy_folder]
  have "\<exists>built. dataset_init toy_lib det_rng toy_folder 16 42
                   = Inr (built, ht_warnings_spec toy_lib toy_folder)
          \<and> length (self_dialogues built) = length (self_labels built)
          \<and> originals (self_dialogues built) (self_labels built) = ht_dialogues_spec toy_lib 16 toy_folder
          \<and> self_max_utterances built = 16"
    using U [THEN conjunct2, THEN conjunct2, THEN conjunct2, THEN conjunct2, THEN conjunct1] h5 h6 by simp
  then obtain built where b1: "dataset_init toy_lib det_rng toy_folder 16 42 = Inr (built, [?w])"
      and b2: "length (self_dialogues built) = length (self_labels built)"
      and b3: "originals (self_dialogues built) (self_labels built) = [?d, chat_dialogue, chat_dialogue]"
      and b4: "self_max_utterances built = 16"
    using h6 h6w by auto
  note U2 = corpus_error_handling [where lib = toy_lib and mx = 16 and g = det_rng and sd = 42
      and folder = toy_folder and ds = built and printed' = "[?w]"]
  have b5: "self_dialogues built \<noteq> []"
    using U2 [THEN conjunct2, THEN conjunct1] b1 by blast
  have c4: "\<exists>built. dataset_init toy_lib det_rng toy_folder 16 42 = Inr (built, [?w])
          \<and> self_dialogues built \<noteq> []
          \<and> length (self_dialogues built) = length (self_labels built)
          \<and> originals (self_dialogues built) (self_labels built) = [?d, chat_dialogue, chat_dialogue]
          \<and> self_max_utterances built = 16"
    using b1 b2 b3 b4 b5 by blast
  have c5: "load_dialogues_with_speakers toy_lib toy_folder = Inr ([?d, chat_dialogue], [?w, ?w])"
    using U [THEN conjunct2, THEN conjunct2, THEN conjunct2, THEN conjunct2, THEN conjunct2, THEN conjunct1] h5' h7 h7w by simp

  note V = corpus_error_handling [where lib = toy_lib and mx = 16 and g = det_rng and sd = 42
      and l = "''{broken''" and fname = "''f.jsonl''" and pre = "[''GREETING'']" and post = "['' '', ''CHAT'']"
      and fpre = "[]" and fpost = "[(''notes.txt'', [''CHAT''])]"
      and ds = ?ds and p' = "[]" and a' = "[?d, chat_dialogue]"]
  have "\<exists>p q. [] = p @ q
          \<and> dataset_init toy_lib det_rng
               ([] @ (''f.jsonl'', [''GREETING''] @ ''{broken'' # ['' '', ''CHAT'']) # [(''notes.txt'', [''CHAT''])])
               16 42
             = Inr (?ds, p @ ?w # q)"
    using V [THEN conjunct2, THEN conjunct2, THEN conjunct2, THEN conjunct2, THEN conjunct2, THEN conjunct2, THEN conjunct1] h2 h8' by blast
  then have c6: "dataset_init toy_lib det_rng toy_folder 16 42 = Inr (?ds, [?w])"
    unfolding tf by auto
  note V2 = corpus_error_handling [where lib = toy_lib and mx = 16 and g = det_rng and sd = 42
      and l = "''{broken''" and fname = "''f.jsonl''" and pre = "[''GREETING'']" and post = "['' '', ''CHAT'']"
      and fpre = "[]" and fpost = "[(''notes.txt'', [''CHAT''])]"
      and p' = "[?w]" and a' = "[?d, chat_dialogue]"]
  have "\<exists>p q. [?w] = p @ q
          \<and> load_dialogues_with_speakers toy_lib
               ([] @ (''f.jsonl'', [''GREETING''] @ ''{broken'' # ['' '', ''CHAT'']) # [(''notes.txt'', [''CHAT''])])
             = Inr ([?d, chat_dialogue], p @ ?w # q)"
    using V2 [THEN conjunct2, THEN conjunct2, THEN conjunct2, THEN conjunct2, THEN conjunct2, THEN conjunct2, THEN conjunct2, THEN conjunct1] h2' jl h9' by blast
  then obtain p q where pq: "[?w] = p @ q"
      and ld: "load_dialogues_with_speakers toy_lib toy_folder = Inr ([?d, chat_dialogue], p @ ?w # q)"
    unfolding tf by blast
  have "p @ ?w # q = [?w, ?w]"
    using pq by (cases p) auto
  then have c7: "load_dialogues_with_speakers toy_lib toy_folder = Inr ([?d, chat_dialogue], [?w, ?w])"
    using ld by simp
  have "kept_dialogues_spec toy_lib ([''GREETING''] @ ''{broken'' # ['' '', ''CHAT''])
          = kept_dialogues_spec toy_lib ([''GREETING''] @ ['' '', ''CHAT''])
        \<and> line_warnings_spec toy_lib ''f.jsonl'' ([''GREETING''] @ ''{broken'' # ['' '', ''CHAT''])
          = line_warnings_spec toy_lib ''f.jsonl'' [''GREETING'']
              @ ?w # line_warnings_spec toy_lib ''f.jsonl'' ['' '', ''CHAT'']"
    using V [THEN conjunct2, THEN conjunct2, THEN conjunct2, THEN conjunct2, THEN conjunct2, THEN conjunct2, THEN conjunct2, THEN conjunct2] h2' by blast
  moreover have "line_warnings_spec toy_lib ''f.jsonl'' [''GREETING''] = []" by code_simp
  moreover have "line_warnings_spec toy_lib ''f.jsonl'' ['' '', ''CHAT''] = [?w]" by code_simp
  ultimately have c8: "kept_dialogues_spec toy_lib [''GREETING'', ''{broken'', '' '', ''CHAT'']
          = kept_dialogues_spec toy_lib [''GREETING'', '' '', ''CHAT'']
        \<and> line_warnings_spec toy_lib ''f.jsonl'' [''GREETING'', ''{broken'', '' '', ''CHAT''] = [?w, ?w]"
    by simp
  have h9n': "load_dialogues_with_speakers toy_lib [(''f.jsonl'', [''GREETING'', ''null''])] = Inl AttributeError"
    using h9n by simp
  show ?thesis
    using h1 c1 c1' c1'' h2 h2' h3 c2 c3 h3n n1 n2 k5 k5' h6 c4 h8 c6 h9 c5 c7 h9n' n3 c8
    by (intro conjI) (simp_all only: simp_thms)
qed

end
